theory Spec2Isabelle
  imports Complex_Main
begin

section \<open>Replay-buffer storage: the data model\<close>

text \<open>
  The development embeds \<^verbatim>\<open>rllib/utils/replay_buffers/storage.py\<close> and
  \<^verbatim>\<open>reservoir_buffer.py\<close>. Python integers are \<^typ>\<open>int\<close>. A Python call mutates its
  object and may raise after having mutated it, so every operation returns its outcome
  together with the object as the call leaves it.
\<close>

datatype error =
  AssertionError | AttributeError | IndexError | KeyError
  | RuntimeError | TypeError | ValueError | ZeroDivisionError

datatype 'a outcome = Return 'a | Raise error

text \<open>The four messages the module sends to its logger.\<close>

datatype log_msg =
  Warning_batch_too_large int int
  | Warning_more_timesteps
  | Warning_capacity
  | Info_capacity

text \<open>
  An item (a sample batch) is used through \<^verbatim>\<open>item.count\<close> and \<^verbatim>\<open>item.size_bytes()\<close> only;
  \<open>payload\<close> stands for the rest of its content.
\<close>

record item =
  payload :: nat
  count :: int
  item_size_bytes :: int

text \<open>
  \<^verbatim>\<open>self._samples\<close>: a Python list of items or \<^verbatim>\<open>None\<close> for \<^verbatim>\<open>InMemoryStorage\<close>, a shelf
  keyed by \<^verbatim>\<open>str(i)\<close> for \<^verbatim>\<open>OnDiskStorage\<close>.
\<close>

datatype samples = InMemory "item option list" | OnDisk "int \<Rightarrow> item option"

text \<open>
  The fields of \<^verbatim>\<open>LocalStorage\<close>. A capacity of \<^verbatim>\<open>math.inf\<close> is \<open>None\<close>.
  \<open>evicted_hit_stats\<close> is the sequence of values pushed to the window statistic,
  \<open>est_final_size\<close> the attribute set by the capacity forecast (\<open>None\<close> before the first
  forecast; double-precision arithmetic is idealised as exact rational arithmetic).
  \<open>logged\<close> and \<open>log_once_done\<close> are process-wide: the messages sent to the logger and
  whether the one key passed to \<^verbatim>\<open>log_once\<close> has fired.
\<close>

record storage =
  capacity_ts :: "int option"
  capacity_items :: int
  capacity_bytes :: "int option"
  eviction_started :: bool
  num_items :: int
  oldest_item_idx :: int
  num_timesteps_added :: int
  num_timesteps :: int
  hit_count :: "int list"
  evicted_hit_stats :: "int list"
  size_bytes :: int
  samples :: samples
  est_final_size :: "rat option"
  logged :: "log_msg list"
  log_once_done :: bool

subsection \<open>Python primitives\<close>

text \<open>
  Position of index \<open>i\<close> in a Python list or numpy array of length \<open>n\<close>: negative
  indices count from the end, anything else out of range raises (\<open>None\<close>).
\<close>

definition py_index :: "nat \<Rightarrow> int \<Rightarrow> nat option" where
  "py_index n i =
     (if 0 \<le> i \<and> i < int n then Some (nat i)
      else if - int n \<le> i \<and> i < 0 then Some (nat (i + int n))
      else None)"

text \<open>Modelled from the spec: the windowed statistic's \<^verbatim>\<open>push(value)\<close>, which records one
  value; the window is the tail of the recorded sequence.\<close>

definition push :: "int \<Rightarrow> storage \<Rightarrow> storage" where
  "push v s = s\<lparr>evicted_hit_stats := evicted_hit_stats s @ [v]\<rparr>"

text \<open>Modelled from the spec: \<^verbatim>\<open>log_once(key)\<close> is true the first time it is asked about a
  key in this process; the message is sent only then.\<close>

definition log_once :: "log_msg \<Rightarrow> storage \<Rightarrow> storage" where
  "log_once m s =
     (if log_once_done s then s
      else s\<lparr>logged := logged s @ [m], log_once_done := True\<rparr>)"

definition over_capacity :: "int \<Rightarrow> int option \<Rightarrow> bool" where
  "over_capacity v c = (case c of None \<Rightarrow> False | Some b \<Rightarrow> v > b)"

subsection \<open>Construction\<close>

definition capacity_positive :: "int option \<Rightarrow> bool" where
  "capacity_positive c = (case c of None \<Rightarrow> True | Some b \<Rightarrow> b > 0)"

definition LocalStorage_init ::
  "samples \<Rightarrow> int \<Rightarrow> int option \<Rightarrow> int option \<Rightarrow> error + storage" where
  "LocalStorage_init smp cap_items cap_ts cap_bytes =
     (if \<not> (cap_items > 0 \<and> capacity_positive cap_ts \<and> capacity_positive cap_bytes)
      then Inl AssertionError
      else Inr \<lparr>capacity_ts = cap_ts, capacity_items = cap_items, capacity_bytes = cap_bytes,
                eviction_started = False, num_items = 0, oldest_item_idx = 0,
                num_timesteps_added = 0, num_timesteps = 0,
                hit_count = replicate (nat cap_items) 0, evicted_hit_stats = [],
                size_bytes = 0, samples = smp, est_final_size = None,
                logged = [], log_once_done = False\<rparr>)"

definition InMemoryStorage_init :: "int \<Rightarrow> int option \<Rightarrow> int option \<Rightarrow> error + storage" where
  "InMemoryStorage_init cap_items cap_ts cap_bytes =
     LocalStorage_init (InMemory (replicate (nat cap_items) None)) cap_items cap_ts cap_bytes"

text \<open>The shelf is opened with flag \<^verbatim>\<open>n\<close>: a new, empty database.\<close>

definition OnDiskStorage_init :: "int \<Rightarrow> int option \<Rightarrow> int option \<Rightarrow> error + storage" where
  "OnDiskStorage_init cap_items cap_ts cap_bytes =
     LocalStorage_init (OnDisk (\<lambda>k. None)) cap_items cap_ts cap_bytes"

subsection \<open>Index translation\<close>

definition get_internal_index :: "int \<Rightarrow> storage \<Rightarrow> error + int" where
  "get_internal_index idx s =
     (if idx < 0 then Inl IndexError
      else Inr ((oldest_item_idx s + idx) mod max 1 (capacity_items s)))"

definition get_external_index :: "int \<Rightarrow> storage \<Rightarrow> error + int" where
  "get_external_index idx s =
     (if idx < 0 then Inl IndexError
      else if idx \<ge> oldest_item_idx s then Inr (idx - oldest_item_idx s)
      else Inr (idx + capacity_items s - oldest_item_idx s))"

subsection \<open>Backend primitives\<close>

text \<open>\<^verbatim>\<open>_get\<close>: the in-memory list may hold \<^verbatim>\<open>None\<close>, which is returned as it is.\<close>

definition get_slot :: "int \<Rightarrow> storage \<Rightarrow> item option outcome" where
  "get_slot i s =
     (case samples s of
        InMemory xs \<Rightarrow>
          (case py_index (length xs) i of
             None \<Rightarrow> Raise IndexError
           | Some k \<Rightarrow> Return (xs ! k))
      | OnDisk m \<Rightarrow>
          (case m i of None \<Rightarrow> Raise KeyError | Some x \<Rightarrow> Return (Some x)))"

text \<open>
  \<^verbatim>\<open>_warn_replay_capacity\<close>; \<open>free\<close> is the number of bytes the operating system reports
  as available (memory for the in-memory backend, disk for the on-disk one) at the call.
\<close>

definition warn_replay_capacity :: "int \<Rightarrow> item \<Rightarrow> storage \<Rightarrow> unit outcome \<times> storage" where
  "warn_replay_capacity free it s =
     (let item_size = item_size_bytes it in
      if count it = 0 then (Raise ZeroDivisionError, s)
      else
        let ts_size = (of_int item_size :: rat) / of_int (count it);
            free_gb = (of_int free :: rat) / 1000000000;
            max_size_for_ts_capacity =
              (case capacity_ts s of None \<Rightarrow> - 1 | Some c \<Rightarrow> of_int c * ts_size);
            est = max (of_int (capacity_items s * item_size)) max_size_for_ts_capacity
                    / 1000000000;
            s1 = s\<lparr>est_final_size := Some est\<rparr>;
            remainder = est - of_int (size_bytes s1) / 1000000000
        in if remainder > free_gb then (Raise ValueError, s1)
           else if remainder > (1 / 5) * free_gb then (Return (), log_once Warning_capacity s1)
           else (Return (), log_once Info_capacity s1))"

text \<open>
  \<^verbatim>\<open>_set\<close>: the forecast first, then the write. The on-disk backend divides by
  \<^verbatim>\<open>item.count\<close> already in the argument of the forecast.
\<close>

definition set_slot :: "int \<Rightarrow> int \<Rightarrow> item \<Rightarrow> storage \<Rightarrow> unit outcome \<times> storage" where
  "set_slot free idx it s =
     (case warn_replay_capacity free it s of
        (Raise e, s1) \<Rightarrow> (Raise e, s1)
      | (Return u, s1) \<Rightarrow>
          (case samples s1 of
             InMemory xs \<Rightarrow>
               (if idx = int (length xs) then (Return (), s1\<lparr>samples := InMemory (xs @ [Some it])\<rparr>)
                else (case py_index (length xs) idx of
                        None \<Rightarrow> (Raise IndexError, s1)
                      | Some k \<Rightarrow> (Return (), s1\<lparr>samples := InMemory (xs[k := Some it])\<rparr>)))
           | OnDisk m \<Rightarrow> (Return (), s1\<lparr>samples := OnDisk (m(idx := Some it))\<rparr>)))"

text \<open>
  \<^verbatim>\<open>__delitem__\<close>: the in-memory backend clears the slot, the on-disk backend keeps the
  key; both push the slot's hit count and reset it.
\<close>

definition delitem :: "int \<Rightarrow> storage \<Rightarrow> item option outcome \<times> storage" where
  "delitem i s =
     (case samples s of
        InMemory xs \<Rightarrow>
          (case py_index (length xs) i of
             None \<Rightarrow> (Raise IndexError, s)
           | Some k \<Rightarrow>
               (let del_sample = xs ! k;
                    s1 = s\<lparr>samples := InMemory (xs[k := None])\<rparr>
                in case py_index (length (hit_count s1)) i of
                     None \<Rightarrow> (Raise IndexError, s1)
                   | Some h \<Rightarrow>
                       (let s2 = push (hit_count s1 ! h) s1;
                            s3 = s2\<lparr>hit_count := (hit_count s2)[h := 0]\<rparr>
                        in (Return del_sample, s3))))
      | OnDisk m \<Rightarrow>
          (case m i of
             None \<Rightarrow> (Raise KeyError, s)
           | Some drop_item \<Rightarrow>
               (case py_index (length (hit_count s)) i of
                  None \<Rightarrow> (Raise IndexError, s)
                | Some h \<Rightarrow>
                    (let s2 = push (hit_count s ! h) s;
                         s3 = s2\<lparr>hit_count := (hit_count s2)[h := 0]\<rparr>
                     in (Return (Some drop_item), s3)))))"

subsection \<open>Adding an item\<close>

text \<open>The condition of the eviction loop of \<^verbatim>\<open>add\<close>.\<close>

definition needs_eviction :: "storage \<Rightarrow> bool" where
  "needs_eviction s =
     (over_capacity (num_timesteps s) (capacity_ts s)
      \<or> over_capacity (size_bytes s) (capacity_bytes s)
      \<or> num_items s \<ge> capacity_items s)"

text \<open>One pass through the body of the loop.\<close>

definition evict_oldest :: "storage \<Rightarrow> unit outcome \<times> storage" where
  "evict_oldest s =
     (if \<not> num_items s > 0 then (Raise AssertionError, s)
      else
        let s1 = s\<lparr>eviction_started := True\<rparr> in
        case py_index (length (hit_count s1)) (oldest_item_idx s1) of
          None \<Rightarrow> (Raise IndexError, s1)
        | Some h \<Rightarrow>
            (let s2 = push (hit_count s1 ! h) s1;
                 s3 = s2\<lparr>hit_count := (hit_count s2)[h := 0]\<rparr>
             in case delitem (oldest_item_idx s3) s3 of
                  (Raise e, s4) \<Rightarrow> (Raise e, s4)
                | (Return None, s4) \<Rightarrow> (Raise AttributeError, s4)
                | (Return (Some drop_item), s4) \<Rightarrow>
                    (let s5 = s4\<lparr>num_timesteps := num_timesteps s4 - count drop_item\<rparr>;
                         s6 = s5\<lparr>size_bytes := size_bytes s5 - item_size_bytes drop_item\<rparr>;
                         s7 = s6\<lparr>num_items := num_items s6 - 1\<rparr>
                     in case get_internal_index 1 s7 of
                          Inl e \<Rightarrow> (Raise e, s7)
                        | Inr j \<Rightarrow> (Return (), s7\<lparr>oldest_item_idx := j\<rparr>))))"

function drop_old_items :: "storage \<Rightarrow> unit outcome \<times> storage" where
  "drop_old_items s =
     (if needs_eviction s
      then (let r = evict_oldest s
            in case fst r of Raise e \<Rightarrow> r | Return u \<Rightarrow> drop_old_items (snd r))
      else (Return (), s))"
  by pat_completeness auto
termination
proof (relation "measure (\<lambda>s. nat (num_items s))")
  show "wf (measure (\<lambda>s. nat (num_items s)))" by simp
next
  fix s r u
  assume "r = evict_oldest s" and "fst r = Return u"
  then have "evict_oldest s = (Return u, snd r)" by (metis prod.collapse)
  moreover have "0 < num_items s \<and> num_items t = num_items s - 1"
    if "evict_oldest s = (Return u, t)" for t
    using that
    by (auto simp: evict_oldest_def delitem_def push_def get_internal_index_def Let_def
        split: if_splits option.splits samples.splits prod.splits outcome.splits sum.splits)
  ultimately have "0 < num_items s \<and> num_items (snd r) = num_items s - 1" by blast
  then show "(snd r, s) \<in> measure (\<lambda>s. nat (num_items s))" by simp
qed

declare drop_old_items.simps [simp del]

definition add :: "int \<Rightarrow> item \<Rightarrow> storage \<Rightarrow> unit outcome \<times> storage" where
  "add free it s =
     (if count it > capacity_items s
      then (Return (),
            s\<lparr>logged := logged s @ [Warning_batch_too_large (count it) (capacity_items s)]\<rparr>)
      else
        let s1 = s\<lparr>num_timesteps_added := num_timesteps_added s + count it\<rparr>;
            s2 = s1\<lparr>num_timesteps := num_timesteps s1 + count it\<rparr>;
            s3 = s2\<lparr>size_bytes := size_bytes s2 + item_size_bytes it\<rparr>
        in case drop_old_items s3 of
             (Raise e, s4) \<Rightarrow> (Raise e, s4)
           | (Return u, s4) \<Rightarrow>
               (case get_internal_index (num_items s4) s4 of
                  Inl e \<Rightarrow> (Raise e, s4)
                | Inr new_idx \<Rightarrow>
                    (case set_slot free new_idx it s4 of
                       (Raise e, s5) \<Rightarrow> (Raise e, s5)
                     | (Return v, s5) \<Rightarrow>
                         (let s6 = s5\<lparr>num_items := num_items s5 + 1\<rparr>
                          in if num_items s6 \<le> capacity_items s6 then (Return (), s6)
                             else (Raise AssertionError, s6)))))"

subsection \<open>Replacing an item\<close>

definition setitem :: "int \<Rightarrow> int \<Rightarrow> item \<Rightarrow> storage \<Rightarrow> unit outcome \<times> storage" where
  "setitem free i it s =
     (if i \<ge> num_items s \<or> i < 0 then (Raise IndexError, s)
      else if \<not> eviction_started s then (Raise RuntimeError, s)
      else
        case get_internal_index i s of
          Inl e \<Rightarrow> (Raise e, s)
        | Inr idx \<Rightarrow>
            (case delitem idx s of
               (Raise e, s1) \<Rightarrow> (Raise e, s1)
             | (Return None, s1) \<Rightarrow> (Raise AttributeError, s1)
             | (Return (Some drop_item), s1) \<Rightarrow>
                 (let s2 = (if count drop_item < count it
                            then s1\<lparr>logged := logged s1 @ [Warning_more_timesteps]\<rparr>
                            else s1)
                  in case py_index (length (hit_count s2)) idx of
                       None \<Rightarrow> (Raise IndexError, s2)
                     | Some h \<Rightarrow>
                         (let s3 = push (hit_count s2 ! h) s2;
                              s4 = s3\<lparr>num_timesteps := num_timesteps s3 - count drop_item\<rparr>;
                              s5 = s4\<lparr>size_bytes := size_bytes s4 - item_size_bytes drop_item\<rparr>;
                              s6 = s5\<lparr>hit_count := (hit_count s5)[h := 0]\<rparr>;
                              s7 = s6\<lparr>num_timesteps_added := num_timesteps_added s6 + count it\<rparr>;
                              s8 = s7\<lparr>num_timesteps := num_timesteps s7 + count it\<rparr>;
                              s9 = s8\<lparr>size_bytes := size_bytes s8 + item_size_bytes it\<rparr>
                          in set_slot free idx it s9))))"

subsection \<open>Reading an item\<close>

text \<open>
  The two normalisation loops of \<^verbatim>\<open>__getitem__\<close>, \<^verbatim>\<open>while i < 0: i += len(self)\<close> and
  \<^verbatim>\<open>while i >= len(self): i -= len(self)\<close>. A loop that runs forever is \<open>None\<close>.
\<close>

partial_function (option) while_negative :: "int \<Rightarrow> int \<Rightarrow> int option" where
  "while_negative n i = (if i < 0 then while_negative n (i + n) else Some i)"

partial_function (option) while_too_large :: "int \<Rightarrow> int \<Rightarrow> int option" where
  "while_too_large n i = (if i \<ge> n then while_too_large n (i - n) else Some i)"

definition normalize_index :: "int \<Rightarrow> int \<Rightarrow> int option" where
  "normalize_index n key =
     (case while_negative n key of None \<Rightarrow> None | Some i \<Rightarrow> while_too_large n i)"

text \<open>The rest of \<^verbatim>\<open>LocalStorage.__getitem__\<close>, after the loops.\<close>

definition read_item :: "int \<Rightarrow> storage \<Rightarrow> item option outcome \<times> storage" where
  "read_item i s =
     (case get_internal_index i s of
        Inl e \<Rightarrow> (Raise e, s)
      | Inr idx \<Rightarrow>
          (case py_index (length (hit_count s)) idx of
             None \<Rightarrow> (Raise IndexError, s)
           | Some h \<Rightarrow>
               (let s1 = s\<lparr>hit_count := (hit_count s)[h := hit_count s ! h + 1]\<rparr>
                in (get_slot idx s1, s1))))"

definition getitem :: "int \<Rightarrow> storage \<Rightarrow> (item option outcome \<times> storage) option" where
  "getitem key s =
     (case normalize_index (num_items s) key of
        None \<Rightarrow> None
      | Some i \<Rightarrow> Some (read_item i s))"

subsection \<open>Views\<close>

text \<open>
  A slice object: each of \<^verbatim>\<open>start\<close>, \<^verbatim>\<open>stop\<close>, \<^verbatim>\<open>step\<close> is an integer or \<^verbatim>\<open>None\<close>.
\<close>

record slice =
  start :: "int option"
  stop :: "int option"
  step :: "int option"

text \<open>
  A storage, or a view of a storage or of another view. A view holds a reference to its
  parent; the parent's current value is kept inside the view, and a read through the view
  returns the view with the parent as the read leaves it.
\<close>

datatype store =
  Local storage
  | StorageView store "int \<times> int \<times> int" "int list"

fun store_len :: "store \<Rightarrow> int" where
  "store_len (Local s) = num_items s"
| "store_len (StorageView p sl m) = int (length m)"

text \<open>Python's \<^verbatim>\<open>x or d\<close> for an optional integer: \<^verbatim>\<open>None\<close> and \<^verbatim>\<open>0\<close> both give \<open>d\<close>.\<close>

definition or_default :: "int option \<Rightarrow> int \<Rightarrow> int" where
  "or_default x d = (case x of None \<Rightarrow> d | Some v \<Rightarrow> if v = 0 then d else v)"

text \<open>\<^verbatim>\<open>list(range(a, b, st))\<close> for a step that is not zero.\<close>

definition range_len :: "int \<Rightarrow> int \<Rightarrow> int \<Rightarrow> nat" where
  "range_len a b st =
     (if st > 0 \<and> a < b then nat ((b - a - 1) div st + 1)
      else if st < 0 \<and> b < a then nat ((a - b - 1) div (- st) + 1)
      else 0)"

definition py_range :: "int \<Rightarrow> int \<Rightarrow> int \<Rightarrow> int list" where
  "py_range a b st = map (\<lambda>k. a + int k * st) [0..<range_len a b st]"

text \<open>\<^verbatim>\<open>StorageView.__init__\<close>: the slice with its defaults and the index list of the view.\<close>

definition view_slice :: "int \<Rightarrow> slice \<Rightarrow> int \<times> int \<times> int" where
  "view_slice n sl =
     (let st = or_default (step sl) 1;
          a = (if st > 0 then or_default (start sl) 0 else or_default (start sl) (n - 1));
          b = (if st > 0 then or_default (stop sl) n else or_default (stop sl) (- (n + 1)))
      in (a, b, st))"

definition view_idx_map :: "int \<Rightarrow> slice \<Rightarrow> int list" where
  "view_idx_map n sl =
     (case view_slice n sl of
        (a, b, st) \<Rightarrow>
          (let b' = (if st < 0 \<and> stop sl = None then b + n else b)
           in py_range a b' st))"

definition StorageView_init :: "store \<Rightarrow> slice \<Rightarrow> store" where
  "StorageView_init p sl =
     StorageView p (view_slice (store_len p) sl) (view_idx_map (store_len p) sl)"

text \<open>
  Conventional slicing of a sequence of length \<open>n\<close>, as the language defines it for
  \<^verbatim>\<open>range(n)[start:stop:step]\<close>: negative bounds count from the end and every bound is
  clamped to the sequence. This follows the specification's words, for comparison with
  \<open>view_idx_map\<close>.
\<close>

definition clamp_bound :: "int \<Rightarrow> int \<Rightarrow> int \<Rightarrow> int \<Rightarrow> int" where
  "clamp_bound n lower upper v = (if v < 0 then max (v + n) lower else min v upper)"

definition conventional_slice :: "int \<Rightarrow> slice \<Rightarrow> int list" where
  "conventional_slice n sl =
     (let st = (case step sl of None \<Rightarrow> 1 | Some v \<Rightarrow> v);
          lower = (if st < 0 then - 1 else 0);
          upper = (if st < 0 then n - 1 else n);
          a = (case start sl of
                 None \<Rightarrow> (if st < 0 then upper else lower)
               | Some v \<Rightarrow> clamp_bound n lower upper v);
          b = (case stop sl of
                 None \<Rightarrow> (if st < 0 then lower else upper)
               | Some v \<Rightarrow> clamp_bound n lower upper v)
      in py_range a b st)"

text \<open>
  \<^verbatim>\<open>__getitem__\<close> with an integer key, on a storage and on a view. The view normalises
  the key against its own length and reads its parent at the index it maps to.
\<close>

fun store_getitem :: "int \<Rightarrow> store \<Rightarrow> (item option outcome \<times> store) option" where
  "store_getitem key (Local s) =
     (case getitem key s of None \<Rightarrow> None | Some (r, s') \<Rightarrow> Some (r, Local s'))"
| "store_getitem key (StorageView p sl m) =
     (case normalize_index (int (length m)) key of
        None \<Rightarrow> None
      | Some i \<Rightarrow>
          (case py_index (length m) i of
             None \<Rightarrow> Some (Raise IndexError, StorageView p sl m)
           | Some k \<Rightarrow>
               (case store_getitem (m ! k) p of
                  None \<Rightarrow> None
                | Some (r, p') \<Rightarrow> Some (r, StorageView p' sl m))))"

subsection \<open>Snapshot and restore\<close>

text \<open>The dictionary \<^verbatim>\<open>InMemoryStorage.get_state\<close> returns, one field per key.\<close>

record state_dict =
  st_capacity_ts :: "int option"
  st_capacity_items :: int
  st_capacity_bytes :: "int option"
  st_num_items :: int
  st_oldest_item_idx :: int
  st_eviction_started :: bool
  st_num_timesteps_added :: int
  st_num_timesteps :: int
  st_size_bytes :: int
  st_samples :: samples

definition get_state :: "storage \<Rightarrow> state_dict" where
  "get_state s =
     \<lparr>st_capacity_ts = capacity_ts s, st_capacity_items = capacity_items s,
      st_capacity_bytes = capacity_bytes s, st_num_items = num_items s,
      st_oldest_item_idx = oldest_item_idx s, st_eviction_started = eviction_started s,
      st_num_timesteps_added = num_timesteps_added s, st_num_timesteps = num_timesteps s,
      st_size_bytes = size_bytes s, st_samples = samples s\<rparr>"

text \<open>
  \<^verbatim>\<open>InMemoryStorage.set_state\<close> on a storage \<open>s\<close>: the samples, then the fields in the
  order of \<^verbatim>\<open>LocalStorage.set_state\<close>, then \<^verbatim>\<open>np.zeros(capacity_items)\<close>, which raises
  for a negative length.
\<close>

definition set_state :: "state_dict \<Rightarrow> storage \<Rightarrow> unit outcome \<times> storage" where
  "set_state d s =
     (let s1 = s\<lparr>samples := st_samples d,
                  capacity_ts := st_capacity_ts d,
                  capacity_items := st_capacity_items d,
                  capacity_bytes := st_capacity_bytes d,
                  num_items := st_num_items d,
                  oldest_item_idx := st_oldest_item_idx d,
                  eviction_started := st_eviction_started d,
                  num_timesteps_added := st_num_timesteps_added d,
                  num_timesteps := st_num_timesteps d,
                  size_bytes := st_size_bytes d\<rparr>
      in if capacity_items s1 < 0 then (Raise ValueError, s1)
         else (Return (), s1\<lparr>hit_count := replicate (nat (capacity_items s1)) 0\<rparr>))"

subsection \<open>The reservoir buffer\<close>

record reservoir_buffer =
  buffer_storage :: storage
  num_add_calls :: int
  num_evicted :: int

text \<open>
  \<^verbatim>\<open>random.randint(a, b)\<close>: an integer of \<open>[a, b]\<close>, both ends included, chosen by the
  generator's next output \<open>rnd\<close>; an empty range raises.
\<close>

definition randint :: "nat \<Rightarrow> int \<Rightarrow> int \<Rightarrow> int outcome" where
  "randint rnd a b = (if b < a then Raise ValueError else Return (a + int rnd mod (b - a + 1)))"

text \<open>The positional arguments of a call: a reference to the buffer, or a batch.\<close>

datatype argument = Self | Batch item

text \<open>
  Modelled from the spec: \<^verbatim>\<open>ReplayBuffer._add_single_batch(self, item, **kwargs)\<close>, the
  method of the parent class, which is not among the sources. It hands the item to the
  storage's FIFO \<^verbatim>\<open>add\<close>. Called through the class it is a plain function of two
  positional parameters, and a call that does not supply both raises \<^verbatim>\<open>TypeError\<close>.
\<close>

fun ReplayBuffer_add_single_batch ::
  "int \<Rightarrow> argument list \<Rightarrow> reservoir_buffer \<Rightarrow> unit outcome \<times> reservoir_buffer" where
  "ReplayBuffer_add_single_batch free [Self, Batch it] b =
     (case add free it (buffer_storage b) of (r, s') \<Rightarrow> (r, b\<lparr>buffer_storage := s'\<rparr>))"
| "ReplayBuffer_add_single_batch free args b = (Raise TypeError, b)"

text \<open>
  \<^verbatim>\<open>ReservoirBuffer._add_single_batch\<close>. The last branch is the source's call
  \<^verbatim>\<open>ReplayBuffer._add_single_batch(item, **kwargs)\<close>, whose only positional argument is
  the item.
\<close>

definition add_single_batch ::
  "int \<Rightarrow> nat \<Rightarrow> item \<Rightarrow> reservoir_buffer \<Rightarrow> unit outcome \<times> reservoir_buffer" where
  "add_single_batch free rnd it b =
     (let b1 = b\<lparr>num_add_calls := num_add_calls b + 1\<rparr> in
      if eviction_started (buffer_storage b1) then
        (case randint rnd 0 (num_add_calls b1 - 1) of
           Raise e \<Rightarrow> (Raise e, b1)
         | Return idx \<Rightarrow>
             (if idx < num_items (buffer_storage b1) then
                (let b2 = b1\<lparr>num_evicted := num_evicted b1 + 1\<rparr>
                 in case setitem free idx it (buffer_storage b2) of
                      (r, s') \<Rightarrow> (r, b2\<lparr>buffer_storage := s'\<rparr>))
              else (Return (), b1)))
      else ReplayBuffer_add_single_batch free [Batch it] b1)"

subsection \<open>Sequences of calls, well-formed storages, and sample data\<close>

text \<open>
  A sequence of \<^verbatim>\<open>add\<close> calls, each with the free resource seen at that call. A call that
  raises leaves the storage as it was at the raise, and the caller goes on with it.
\<close>

fun add_all :: "(int \<times> item) list \<Rightarrow> storage \<Rightarrow> storage" where
  "add_all [] s = s"
| "add_all ((free, it) # calls) s = add_all calls (snd (add free it s))"

text \<open>
  What the constructors establish about the arrays: as many hit counters, and for the
  in-memory backend as many slots, as \<open>capacity_items\<close>, which is positive.
\<close>

definition well_formed :: "storage \<Rightarrow> bool" where
  "well_formed s =
     (0 < capacity_items s
      \<and> length (hit_count s) = nat (capacity_items s)
      \<and> (case samples s of
            InMemory xs \<Rightarrow> length xs = nat (capacity_items s)
          | OnDisk m \<Rightarrow> True))"

text \<open>
  The slices whose explicit bounds lie inside a sequence of length \<open>n\<close> and are not
  the integer \<open>0\<close> where \<open>or_default\<close> would replace it by another value.
\<close>

definition inside :: "int \<Rightarrow> int \<Rightarrow> int option \<Rightarrow> bool" where
  "inside lo hi x = (case x of None \<Rightarrow> True | Some v \<Rightarrow> lo \<le> v \<and> v \<le> hi)"

definition slice_within :: "int \<Rightarrow> slice \<Rightarrow> bool" where
  "slice_within n sl =
     (case step sl of
        None \<Rightarrow> inside 0 n (start sl) \<and> inside 1 n (stop sl)
      | Some st \<Rightarrow>
          (if st > 0 then inside 0 n (start sl) \<and> inside 1 n (stop sl)
           else st < 0 \<and> inside 1 (n - 1) (start sl) \<and> inside 1 (n - 1) (stop sl)))"

text \<open>Batches of \<open>c\<close> timesteps and \<open>b\<close> bytes, and 16 GB of free memory.\<close>

definition batch :: "nat \<Rightarrow> int \<Rightarrow> int \<Rightarrow> item" where
  "batch p c b = \<lparr>payload = p, count = c, item_size_bytes = b\<rparr>"

definition plenty :: int where
  "plenty = 16000000000"

text \<open>An in-memory storage of three slots holding three one-step batches.\<close>

definition three_batches :: storage where
  "three_batches =
     add_all [(plenty, batch 1 1 8), (plenty, batch 2 1 8), (plenty, batch 3 1 8)]
       (projr (InMemoryStorage_init 3 None None))"

text \<open>
  An in-memory storage of two slots and at most one timestep, holding one batch; and a
  batch of four gigabytes.
\<close>

definition one_batch :: storage where
  "one_batch = add_all [(plenty, batch 1 1 8)] (projr (InMemoryStorage_init 2 (Some 1) None))"

definition huge :: item where
  "huge = batch 2 1 4000000000"

text \<open>
  An in-memory storage of two slots after three two-step batches: the first has been
  evicted, the oldest stored batch is in slot 1.
\<close>

definition evicting :: storage where
  "evicting =
     add_all [(plenty, batch 1 2 16), (plenty, batch 2 2 16), (plenty, batch 3 2 16)]
       (projr (InMemoryStorage_init 2 None None))"

text \<open>An in-memory storage of one slot holding one batch, and an empty reservoir buffer.\<close>

definition one_slot :: storage where
  "one_slot = add_all [(plenty, batch 1 1 8)] (projr (InMemoryStorage_init 1 None None))"

definition new_reservoir :: reservoir_buffer where
  "new_reservoir =
     \<lparr>buffer_storage = projr (InMemoryStorage_init 3 None None),
      num_add_calls = 0, num_evicted = 0\<rparr>"

section \<open>Properties\<close>

subsection \<open>What the steps of \<^verbatim>\<open>add\<close> change\<close>

text \<open>The definitions a run on concrete data unfolds.\<close>

lemmas run_defs = add_def drop_old_items.simps needs_eviction_def over_capacity_def evict_oldest_def
  delitem_def push_def get_internal_index_def set_slot_def warn_replay_capacity_def log_once_def
  py_index_def batch_def plenty_def InMemoryStorage_init_def LocalStorage_init_def
  capacity_positive_def Let_def eval_nat_numeral

lemma evict_oldest_fields:
  "evict_oldest s = (r, s') \<Longrightarrow>
     capacity_items s' = capacity_items s \<and> capacity_ts s' = capacity_ts s
     \<and> capacity_bytes s' = capacity_bytes s
     \<and> num_timesteps_added s' = num_timesteps_added s
     \<and> num_items s' \<le> num_items s"
  by (auto simp: evict_oldest_def delitem_def push_def get_internal_index_def Let_def
      split: if_splits option.splits samples.splits prod.splits outcome.splits sum.splits)

lemma drop_old_items_fields:
  "drop_old_items s = (r, s') \<Longrightarrow>
     capacity_items s' = capacity_items s \<and> capacity_ts s' = capacity_ts s
     \<and> capacity_bytes s' = capacity_bytes s
     \<and> num_timesteps_added s' = num_timesteps_added s
     \<and> num_items s' \<le> num_items s
     \<and> (r = Return () \<longrightarrow> \<not> needs_eviction s')"
proof (induction s arbitrary: r s' rule: drop_old_items.induct)
  case (1 s)
  show ?case
  proof (cases "needs_eviction s")
    case False
    with "1.prems" show ?thesis by (simp add: drop_old_items.simps)
  next
    case True
    obtain q t where ev: "evict_oldest s = (q, t)" by (cases "evict_oldest s")
    note f = evict_oldest_fields [OF ev]
    show ?thesis
    proof (cases q)
      case (Raise e)
      with True ev "1.prems" have "r = Raise e" "s' = t"
        by (simp_all add: drop_old_items.simps)
      with f show ?thesis by simp
    next
      case (Return u)
      with True ev "1.prems" have d: "drop_old_items t = (r, s')"
        by (simp add: drop_old_items.simps)
      have "fst (evict_oldest s) = Return u" "drop_old_items (snd (evict_oldest s)) = (r, s')"
        using ev Return d by simp_all
      from "1.IH" [OF True refl this]
      have "capacity_items s' = capacity_items t \<and> capacity_ts s' = capacity_ts t
          \<and> capacity_bytes s' = capacity_bytes t
          \<and> num_timesteps_added s' = num_timesteps_added t
          \<and> num_items s' \<le> num_items t
          \<and> (r = Return () \<longrightarrow> \<not> needs_eviction s')" using ev by simp
      with f show ?thesis by simp
    qed
  qed
qed

lemma warn_replay_capacity_fields:
  "warn_replay_capacity free it s = (r, s') \<Longrightarrow>
     capacity_items s' = capacity_items s \<and> capacity_ts s' = capacity_ts s
     \<and> capacity_bytes s' = capacity_bytes s \<and> num_items s' = num_items s
     \<and> num_timesteps s' = num_timesteps s \<and> size_bytes s' = size_bytes s
     \<and> num_timesteps_added s' = num_timesteps_added s
     \<and> samples s' = samples s \<and> hit_count s' = hit_count s
     \<and> oldest_item_idx s' = oldest_item_idx s \<and> eviction_started s' = eviction_started s
     \<and> evicted_hit_stats s' = evicted_hit_stats s"
  by (auto simp: warn_replay_capacity_def log_once_def Let_def split: if_splits)

lemma set_slot_fields:
  "set_slot free idx it s = (r, s') \<Longrightarrow>
     capacity_items s' = capacity_items s \<and> capacity_ts s' = capacity_ts s
     \<and> capacity_bytes s' = capacity_bytes s \<and> num_items s' = num_items s
     \<and> num_timesteps s' = num_timesteps s \<and> size_bytes s' = size_bytes s
     \<and> num_timesteps_added s' = num_timesteps_added s
     \<and> hit_count s' = hit_count s
     \<and> oldest_item_idx s' = oldest_item_idx s \<and> eviction_started s' = eviction_started s
     \<and> evicted_hit_stats s' = evicted_hit_stats s"
proof -
  assume a: "set_slot free idx it s = (r, s')"
  obtain q t where w: "warn_replay_capacity free it s = (q, t)"
    by (cases "warn_replay_capacity free it s")
  note f = warn_replay_capacity_fields [OF w]
  from a w have "capacity_items s' = capacity_items t \<and> capacity_ts s' = capacity_ts t
     \<and> capacity_bytes s' = capacity_bytes t \<and> num_items s' = num_items t
     \<and> num_timesteps s' = num_timesteps t \<and> size_bytes s' = size_bytes t
     \<and> num_timesteps_added s' = num_timesteps_added t
     \<and> hit_count s' = hit_count t
     \<and> oldest_item_idx s' = oldest_item_idx t \<and> eviction_started s' = eviction_started t
     \<and> evicted_hit_stats s' = evicted_hit_stats t"
    by (auto simp: set_slot_def split: outcome.splits samples.splits if_splits option.splits)
  with f show ?thesis by simp
qed

lemma add_capacity_items: "add free it s = (r, s') \<Longrightarrow> capacity_items s' = capacity_items s"
  by (auto simp: add_def Let_def split: if_splits prod.splits outcome.splits sum.splits
      dest!: drop_old_items_fields set_slot_fields)

lemma add_num_items:
  assumes "add free it s = (r, s')" and "num_items s \<le> capacity_items s"
  shows "num_items s' \<le> capacity_items s'"
  using assms
  by (auto simp: add_def Let_def needs_eviction_def
      split: if_splits prod.splits outcome.splits sum.splits
      dest!: drop_old_items_fields set_slot_fields)

lemma add_restores_bounds:
  assumes "add free it s = (Return (), s')" and "count it \<le> capacity_items s"
  shows "\<not> over_capacity (num_timesteps s') (capacity_ts s')
         \<and> \<not> over_capacity (size_bytes s') (capacity_bytes s')
         \<and> num_items s' \<le> capacity_items s'"
  using assms
  by (auto simp: add_def Let_def needs_eviction_def
      split: if_splits prod.splits outcome.splits sum.splits
      dest!: drop_old_items_fields set_slot_fields)

lemma add_all_num_items:
  "num_items s \<le> capacity_items s \<Longrightarrow>
     num_items (add_all calls s) \<le> capacity_items (add_all calls s)"
proof (induction calls arbitrary: s)
  case Nil
  then show ?case by simp
next
  case (Cons c calls)
  obtain free it where c: "c = (free, it)" by (cases c)
  have "num_items (snd (add free it s)) \<le> capacity_items (snd (add free it s))"
    using add_num_items [of free it s "fst (add free it s)" "snd (add free it s)"] Cons.prems
    by simp
  from Cons.IH [OF this] show ?case by (simp add: c)
qed

lemma add_all_capacity_items: "capacity_items (add_all calls s) = capacity_items s"
proof (induction calls arbitrary: s)
  case Nil
  then show ?case by simp
next
  case (Cons c calls)
  obtain free it where c: "c = (free, it)" by (cases c)
  have "capacity_items (snd (add free it s)) = capacity_items s"
    using add_capacity_items [of free it s "fst (add free it s)" "snd (add free it s)"] by simp
  with Cons.IH show ?case by (simp add: c)
qed

subsection \<open>Well-formed storages\<close>

text \<open>
  The constructors return well-formed storages, and \<^verbatim>\<open>add\<close>, \<^verbatim>\<open>__getitem__\<close> and
  \<^verbatim>\<open>__setitem__\<close> keep a storage well-formed whether they return or raise.
\<close>

lemma well_formed_cong:
  "capacity_items t = capacity_items s \<Longrightarrow> length (hit_count t) = length (hit_count s) \<Longrightarrow>
     samples t = samples s \<Longrightarrow> well_formed s \<Longrightarrow> well_formed t"
  by (auto simp: well_formed_def split: samples.splits)

lemma well_formed_init:
  "InMemoryStorage_init c ts b = Inr s \<Longrightarrow> well_formed s"
  "OnDiskStorage_init c ts b = Inr s \<Longrightarrow> well_formed s"
  by (auto simp: InMemoryStorage_init_def OnDiskStorage_init_def LocalStorage_init_def
      well_formed_def split: if_splits)

lemma evict_oldest_well_formed:
  "evict_oldest s = (r, s') \<Longrightarrow> well_formed s \<Longrightarrow> well_formed s'"
  by (auto simp: evict_oldest_def delitem_def push_def get_internal_index_def Let_def
      well_formed_def
      split: if_splits option.splits samples.splits prod.splits outcome.splits sum.splits)

lemma drop_old_items_well_formed:
  "drop_old_items s = (r, s') \<Longrightarrow> well_formed s \<Longrightarrow> well_formed s'"
proof (induction s arbitrary: r s' rule: drop_old_items.induct)
  case (1 s)
  show ?case
  proof (cases "needs_eviction s")
    case False
    with "1.prems" show ?thesis by (simp add: drop_old_items.simps)
  next
    case True
    obtain q t where ev: "evict_oldest s = (q, t)" by (cases "evict_oldest s")
    note w = evict_oldest_well_formed [OF ev "1.prems"(2)]
    show ?thesis
    proof (cases q)
      case (Raise e)
      with True ev "1.prems" have "s' = t" by (simp add: drop_old_items.simps)
      with w show ?thesis by simp
    next
      case (Return u)
      with True ev "1.prems" have d: "drop_old_items (snd (evict_oldest s)) = (r, s')"
        by (simp add: drop_old_items.simps)
      have "fst (evict_oldest s) = Return u" using ev Return by simp
      from "1.IH" [OF True refl this d] w ev show ?thesis by simp
    qed
  qed
qed

lemma set_slot_well_formed:
  assumes "set_slot free idx it s = (r, s')" and "well_formed s"
    and "0 \<le> idx" and "idx < capacity_items s"
  shows "well_formed s'"
proof -
  obtain q t where w: "warn_replay_capacity free it s = (q, t)"
    by (cases "warn_replay_capacity free it s")
  from warn_replay_capacity_fields [OF w] assms(2) have t: "well_formed t"
    by (auto simp: well_formed_def split: samples.splits)
  from warn_replay_capacity_fields [OF w] assms(4) have i: "idx < capacity_items t" by simp
  from assms(1) w t i assms(3) show ?thesis
    by (auto simp: set_slot_def well_formed_def py_index_def
        split: outcome.splits samples.splits if_splits option.splits)
qed

lemma add_well_formed:
  assumes "add free it s = (r, s')" and "well_formed s"
  shows "well_formed s'"
proof (cases "count it > capacity_items s")
  case True
  with assms show ?thesis by (auto simp: add_def well_formed_def split: samples.splits)
next
  case False
  let ?s3 = "s\<lparr>num_timesteps_added := num_timesteps_added s + count it,
               num_timesteps := num_timesteps s + count it,
               size_bytes := size_bytes s + item_size_bytes it\<rparr>"
  have w3: "well_formed ?s3" using assms(2)
    by (auto simp: well_formed_def split: samples.splits)
  obtain q s4 where d: "drop_old_items ?s3 = (q, s4)" by (cases "drop_old_items ?s3")
  note w4 = drop_old_items_well_formed [OF d w3]
  show ?thesis
  proof (cases q)
    case (Raise e)
    with assms(1) False d have "s' = s4" by (simp add: add_def Let_def)
    with w4 show ?thesis by simp
  next
    case (Return u)
    show ?thesis
    proof (cases "num_items s4 < 0")
      case True
      with assms(1) False d Return have "s' = s4"
        by (simp add: add_def Let_def get_internal_index_def)
      with w4 show ?thesis by simp
    next
      case n: False
      let ?idx = "(oldest_item_idx s4 + num_items s4) mod max 1 (capacity_items s4)"
      from w4 have c: "0 < capacity_items s4" by (simp add: well_formed_def)
      then have idx: "0 \<le> ?idx" "?idx < capacity_items s4" by simp_all
      obtain r5 s5 where ss: "set_slot free ?idx it s4 = (r5, s5)"
        by (cases "set_slot free ?idx it s4")
      note w5 = set_slot_well_formed [OF ss w4 idx]
      from assms(1) False d Return n ss
      have "s' = s5 \<or> s' = s5\<lparr>num_items := num_items s5 + 1\<rparr>"
        by (cases r5) (auto simp: add_def Let_def get_internal_index_def split: if_splits)
      with w5 show ?thesis by (auto simp: well_formed_def split: samples.splits)
    qed
  qed
qed

lemma add_all_well_formed: "well_formed s \<Longrightarrow> well_formed (add_all calls s)"
proof (induction calls arbitrary: s)
  case Nil
  then show ?case by simp
next
  case (Cons c calls)
  obtain free it where c: "c = (free, it)" by (cases c)
  have "well_formed (snd (add free it s))"
    using add_well_formed [of free it s "fst (add free it s)" "snd (add free it s)"] Cons.prems
    by simp
  from Cons.IH [OF this] show ?case by (simp add: c)
qed

lemma getitem_well_formed:
  "getitem key s = Some (r, s') \<Longrightarrow> well_formed s \<Longrightarrow> well_formed s'"
  by (auto simp: getitem_def read_item_def well_formed_def Let_def
      split: option.splits sum.splits samples.splits)

lemma setitem_well_formed:
  assumes "setitem free i it s = (r, s')" and "well_formed s"
  shows "well_formed s'"
proof (cases "i \<ge> num_items s \<or> i < 0 \<or> \<not> eviction_started s")
  case True
  with assms show ?thesis by (auto simp: setitem_def split: if_splits)
next
  case False
  let ?idx = "(oldest_item_idx s + i) mod max 1 (capacity_items s)"
  from assms(2) have c: "0 < capacity_items s" by (simp add: well_formed_def)
  then have idx: "0 \<le> ?idx" "?idx < capacity_items s" by simp_all
  have gi: "get_internal_index i s = Inr ?idx" using False by (simp add: get_internal_index_def)
  obtain q s1 where d: "delitem ?idx s = (q, s1)" by (cases "delitem ?idx s")
  then have w1: "well_formed s1" "capacity_items s1 = capacity_items s"
    using assms(2)
    by (auto simp: delitem_def push_def Let_def well_formed_def
        split: option.splits samples.splits)
  show ?thesis
  proof (cases q)
    case (Raise e)
    with assms(1) False gi d have "s' = s1" by (simp add: setitem_def)
    with w1 show ?thesis by simp
  next
    case (Return x)
    show ?thesis
    proof (cases x)
      case None
      with assms(1) False gi d Return have "s' = s1" by (simp add: setitem_def)
      with w1 show ?thesis by simp
    next
      case (Some drop_item)
      let ?s2 = "if count drop_item < count it
                 then s1\<lparr>logged := logged s1 @ [Warning_more_timesteps]\<rparr> else s1"
      have w2: "well_formed ?s2" "capacity_items ?s2 = capacity_items s"
        using w1 by (auto intro: well_formed_cong [of _ s1])
      show ?thesis
      proof (cases "py_index (length (hit_count ?s2)) ?idx")
        case None
        with assms(1) False gi d Return Some have "s' = ?s2"
          by (simp add: setitem_def Let_def)
        with w2 show ?thesis by simp
      next
        case (Some h)
        let ?s9 = "(push (hit_count ?s2 ! h) ?s2)
          \<lparr>num_timesteps := num_timesteps ?s2 - count drop_item,
            size_bytes := size_bytes ?s2 - item_size_bytes drop_item,
            hit_count := (hit_count ?s2)[h := 0],
            num_timesteps_added := num_timesteps_added ?s2 + count it,
            num_timesteps := num_timesteps ?s2 - count drop_item + count it,
            size_bytes := size_bytes ?s2 - item_size_bytes drop_item + item_size_bytes it\<rparr>"
        have "well_formed ?s9"
          by (rule well_formed_cong [of _ ?s2]) (simp_all add: push_def w2)
        moreover have "?idx < capacity_items ?s9"
          using idx w2(2) by (simp add: push_def)
        ultimately have w9: "well_formed ?s9" "?idx < capacity_items ?s9" by simp_all
        from assms(1) False gi d Return \<open>x = Some drop_item\<close> Some
        have "set_slot free ?idx it ?s9 = (r, s')"
          by (simp add: setitem_def Let_def push_def)
        from set_slot_well_formed [OF this w9(1) idx(1) w9(2)] show ?thesis .
      qed
    qed
  qed
qed

subsection \<open>The item capacity\<close>

text \<open>
  Claim C1. Take a storage as the constructor returns it, for any backend, and any
  sequence of \<^verbatim>\<open>add\<close> calls, whether they return or raise. After every call the number
  of stored items is at most \<open>capacity_items\<close>, and a call that stores its item leaves
  all three capacities respected. One call evicts as many of the oldest items as that
  takes: with three slots and three timesteps, the first batch evicts none, a fourth
  one-step batch evicts one (the oldest slot moves to 1), and a three-step batch after
  it evicts all three stored batches.
\<close>

theorem add_keeps_item_capacity:
  assumes "LocalStorage_init smp c ts b = Inr s0"
  shows "num_items (add_all calls s0) \<le> capacity_items (add_all calls s0)
    \<and> capacity_items (add_all calls s0) = c
    \<and> (add free it (add_all calls s0) = (Return (), s') \<longrightarrow> count it \<le> c \<longrightarrow>
         \<not> over_capacity (num_timesteps s') (capacity_ts s')
         \<and> \<not> over_capacity (size_bytes s') (capacity_bytes s')
         \<and> num_items s' \<le> capacity_items s')
    \<and> samples (add_all [(plenty, batch 1 1 8)]
         (projr (InMemoryStorage_init 3 (Some 3) None))) =
       InMemory [Some (batch 1 1 8), None, None]
    \<and> samples (add_all [(plenty, batch 1 1 8), (plenty, batch 2 1 8), (plenty, batch 3 1 8)]
         (projr (InMemoryStorage_init 3 (Some 3) None))) =
       InMemory [Some (batch 1 1 8), Some (batch 2 1 8), Some (batch 3 1 8)]
    \<and> samples (add_all [(plenty, batch 1 1 8), (plenty, batch 2 1 8), (plenty, batch 3 1 8),
           (plenty, batch 4 1 8)] (projr (InMemoryStorage_init 3 (Some 3) None))) =
       InMemory [Some (batch 4 1 8), Some (batch 2 1 8), Some (batch 3 1 8)]
    \<and> oldest_item_idx (add_all [(plenty, batch 1 1 8), (plenty, batch 2 1 8),
           (plenty, batch 3 1 8), (plenty, batch 4 1 8)]
         (projr (InMemoryStorage_init 3 (Some 3) None))) = 1
    \<and> samples (add_all [(plenty, batch 1 1 8), (plenty, batch 2 1 8), (plenty, batch 3 1 8),
           (plenty, batch 4 1 8), (plenty, batch 5 3 24)]
         (projr (InMemoryStorage_init 3 (Some 3) None))) =
       InMemory [None, Some (batch 5 3 24), None]
    \<and> num_items (add_all [(plenty, batch 1 1 8), (plenty, batch 2 1 8), (plenty, batch 3 1 8),
           (plenty, batch 4 1 8), (plenty, batch 5 3 24)]
         (projr (InMemoryStorage_init 3 (Some 3) None))) = 1"
proof -
  from assms have init: "num_items s0 \<le> capacity_items s0" "capacity_items s0 = c"
    by (auto simp: LocalStorage_init_def split: if_splits)
  have inv: "num_items (add_all calls s0) \<le> capacity_items (add_all calls s0)"
    by (rule add_all_num_items) (rule init)
  have cap: "capacity_items (add_all calls s0) = c"
    by (simp add: add_all_capacity_items init)
  have bounds: "add free it (add_all calls s0) = (Return (), s') \<longrightarrow> count it \<le> c \<longrightarrow>
         \<not> over_capacity (num_timesteps s') (capacity_ts s')
         \<and> \<not> over_capacity (size_bytes s') (capacity_bytes s')
         \<and> num_items s' \<le> capacity_items s'"
    using add_restores_bounds [of free it "add_all calls s0" s'] cap by simp
  have e1: "samples (add_all [(plenty, batch 1 1 8)]
         (projr (InMemoryStorage_init 3 (Some 3) None))) =
       InMemory [Some (batch 1 1 8), None, None]"
    by (simp add: run_defs)
  have e3: "samples (add_all [(plenty, batch 1 1 8), (plenty, batch 2 1 8), (plenty, batch 3 1 8)]
         (projr (InMemoryStorage_init 3 (Some 3) None))) =
       InMemory [Some (batch 1 1 8), Some (batch 2 1 8), Some (batch 3 1 8)]"
    by (simp add: run_defs)
  have e4: "samples (add_all [(plenty, batch 1 1 8), (plenty, batch 2 1 8), (plenty, batch 3 1 8),
           (plenty, batch 4 1 8)] (projr (InMemoryStorage_init 3 (Some 3) None))) =
       InMemory [Some (batch 4 1 8), Some (batch 2 1 8), Some (batch 3 1 8)]"
    by (simp add: run_defs)
  have o4: "oldest_item_idx (add_all [(plenty, batch 1 1 8), (plenty, batch 2 1 8),
           (plenty, batch 3 1 8), (plenty, batch 4 1 8)]
         (projr (InMemoryStorage_init 3 (Some 3) None))) = 1"
    by (simp add: run_defs)
  have e5: "samples (add_all [(plenty, batch 1 1 8), (plenty, batch 2 1 8), (plenty, batch 3 1 8),
           (plenty, batch 4 1 8), (plenty, batch 5 3 24)]
         (projr (InMemoryStorage_init 3 (Some 3) None))) =
       InMemory [None, Some (batch 5 3 24), None]"
    by (simp add: run_defs)
  have n5: "num_items (add_all [(plenty, batch 1 1 8), (plenty, batch 2 1 8), (plenty, batch 3 1 8),
           (plenty, batch 4 1 8), (plenty, batch 5 3 24)]
         (projr (InMemoryStorage_init 3 (Some 3) None))) = 1"
    by (simp add: run_defs)
  from inv cap bounds e1 e3 e4 o4 e5 n5 show ?thesis by blast
qed

theorem add_keeps_item_capacity_witness:
  "LocalStorage_init (InMemory (replicate 3 None)) 3 (Some 3) None =
     Inr (projr (InMemoryStorage_init 3 (Some 3) None))
   \<and> add plenty (batch 5 3 24)
        (add_all [(plenty, batch 1 1 8), (plenty, batch 2 1 8), (plenty, batch 3 1 8),
           (plenty, batch 4 1 8)] (projr (InMemoryStorage_init 3 (Some 3) None))) =
      (Return (),
       snd (add plenty (batch 5 3 24)
        (add_all [(plenty, batch 1 1 8), (plenty, batch 2 1 8), (plenty, batch 3 1 8),
           (plenty, batch 4 1 8)] (projr (InMemoryStorage_init 3 (Some 3) None)))))
   \<and> count (batch 5 3 24) \<le> 3
   \<and> num_items (add_all [(plenty, batch 1 1 8), (plenty, batch 2 1 8), (plenty, batch 3 1 8),
           (plenty, batch 4 1 8)] (projr (InMemoryStorage_init 3 (Some 3) None)))
      \<le> capacity_items (add_all [(plenty, batch 1 1 8), (plenty, batch 2 1 8),
           (plenty, batch 3 1 8), (plenty, batch 4 1 8)]
           (projr (InMemoryStorage_init 3 (Some 3) None)))
   \<and> num_items (snd (add plenty (batch 5 3 24)
        (add_all [(plenty, batch 1 1 8), (plenty, batch 2 1 8), (plenty, batch 3 1 8),
           (plenty, batch 4 1 8)] (projr (InMemoryStorage_init 3 (Some 3) None)))))
      \<le> capacity_items (snd (add plenty (batch 5 3 24)
        (add_all [(plenty, batch 1 1 8), (plenty, batch 2 1 8), (plenty, batch 3 1 8),
           (plenty, batch 4 1 8)] (projr (InMemoryStorage_init 3 (Some 3) None)))))"
proof -
  have h1: "LocalStorage_init (InMemory (replicate 3 None)) 3 (Some 3) None =
     Inr (projr (InMemoryStorage_init 3 (Some 3) None))"
    by (simp add: InMemoryStorage_init_def LocalStorage_init_def capacity_positive_def)
  have "fst (add plenty (batch 5 3 24)
        (add_all [(plenty, batch 1 1 8), (plenty, batch 2 1 8), (plenty, batch 3 1 8),
           (plenty, batch 4 1 8)] (projr (InMemoryStorage_init 3 (Some 3) None)))) = Return ()"
    by (simp add: run_defs)
  then have h2: "add plenty (batch 5 3 24)
        (add_all [(plenty, batch 1 1 8), (plenty, batch 2 1 8), (plenty, batch 3 1 8),
           (plenty, batch 4 1 8)] (projr (InMemoryStorage_init 3 (Some 3) None))) =
      (Return (),
       snd (add plenty (batch 5 3 24)
        (add_all [(plenty, batch 1 1 8), (plenty, batch 2 1 8), (plenty, batch 3 1 8),
           (plenty, batch 4 1 8)] (projr (InMemoryStorage_init 3 (Some 3) None)))))"
    by (metis prod.collapse)
  have h3: "count (batch 5 3 24) \<le> 3" by (simp add: batch_def)
  from add_keeps_item_capacity [OF h1,
      of "[(plenty, batch 1 1 8), (plenty, batch 2 1 8), (plenty, batch 3 1 8),
           (plenty, batch 4 1 8)]" plenty "batch 5 3 24"
         "snd (add plenty (batch 5 3 24)
        (add_all [(plenty, batch 1 1 8), (plenty, batch 2 1 8), (plenty, batch 3 1 8),
           (plenty, batch 4 1 8)] (projr (InMemoryStorage_init 3 (Some 3) None))))"]
    h1 h2 h3
  show ?thesis by blast
qed

subsection \<open>A batch larger than the storage\<close>

text \<open>
  Claim C7. For every storage and every item with \<^verbatim>\<open>item.count > capacity_items\<close>,
  \<^verbatim>\<open>add(item)\<close> returns normally, sends one warning to the logger and changes nothing
  else: the item is not stored and every field of the storage keeps its value.
\<close>

theorem add_too_large_is_dropped:
  "count it > capacity_items s \<Longrightarrow>
     add free it s =
       (Return (),
        s\<lparr>logged := logged s @ [Warning_batch_too_large (count it) (capacity_items s)]\<rparr>)"
  by (simp add: add_def)

theorem add_too_large_is_dropped_witness:
  "count (batch 7 3 24) > capacity_items (projr (InMemoryStorage_init 2 None None))
   \<and> add plenty (batch 7 3 24) (projr (InMemoryStorage_init 2 None None)) =
       (Return (),
        (projr (InMemoryStorage_init 2 None None))
          \<lparr>logged := [Warning_batch_too_large 3 2]\<rparr>)"
proof -
  have h: "count (batch 7 3 24) > capacity_items (projr (InMemoryStorage_init 2 None None))"
    by (simp add: batch_def InMemoryStorage_init_def LocalStorage_init_def capacity_positive_def)
  show ?thesis
    using h add_too_large_is_dropped [OF h, of plenty]
    by (simp add: batch_def InMemoryStorage_init_def LocalStorage_init_def capacity_positive_def)
qed

subsection \<open>Snapshot and restore\<close>

text \<open>
  Claim C6. Restoring the snapshot of an in-memory storage \<open>S\<close> into a storage \<open>T\<close> gives
  the capacities, counters, oldest slot, eviction flag and samples of \<open>S\<close>, and a hit-count
  array of \<open>capacity_items\<close> zeros whatever the hit counts of \<open>S\<close> were. What the snapshot
  does not hold (the window statistic, the forecast, the logger) stays as \<open>T\<close> had it.
\<close>

theorem set_state_get_state:
  "0 \<le> capacity_items S \<Longrightarrow>
     set_state (get_state S) T =
       (Return (),
        S\<lparr>hit_count := replicate (nat (capacity_items S)) 0,
          evicted_hit_stats := evicted_hit_stats T,
          est_final_size := est_final_size T,
          logged := logged T,
          log_once_done := log_once_done T\<rparr>)"
  by (simp add: set_state_def get_state_def Let_def)

theorem set_state_get_state_witness:
  "0 \<le> capacity_items ((projr (InMemoryStorage_init 2 None None))\<lparr>hit_count := [3, 1]\<rparr>)
   \<and> set_state (get_state ((projr (InMemoryStorage_init 2 None None))\<lparr>hit_count := [3, 1]\<rparr>))
        (projr (InMemoryStorage_init 5 None None)) =
       (Return (), (projr (InMemoryStorage_init 2 None None))\<lparr>hit_count := [0, 0]\<rparr>)"
proof -
  have h: "0 \<le> capacity_items ((projr (InMemoryStorage_init 2 None None))\<lparr>hit_count := [3, 1]\<rparr>)"
    by (simp add: InMemoryStorage_init_def LocalStorage_init_def capacity_positive_def)
  show ?thesis
    using h set_state_get_state [OF h, of "projr (InMemoryStorage_init 5 None None)"]
    by (simp add: InMemoryStorage_init_def LocalStorage_init_def capacity_positive_def
        numeral_2_eq_2)
qed

subsection \<open>Reading by index\<close>

lemma while_negative_terminates:
  "0 < n \<Longrightarrow> while_negative n i = Some (if i < 0 then i mod n else i)"
proof (induction "nat (- i)" arbitrary: i rule: less_induct)
  case less
  show ?case
  proof (cases "i < 0")
    case False
    then show ?thesis by (subst while_negative.simps) simp
  next
    case True
    have step: "while_negative n (i + n) = Some (if i + n < 0 then (i + n) mod n else i + n)"
      using less.prems True by (intro less.hyps) auto
    have "i mod n = i + n" if "0 \<le> i + n"
    proof -
      have "(i + n) mod n = i + n" using that True by (intro mod_pos_pos_trivial) auto
      then show ?thesis by simp
    qed
    with step True show ?thesis by (subst while_negative.simps) auto
  qed
qed

lemma while_too_large_terminates:
  "0 < n \<Longrightarrow> 0 \<le> i \<Longrightarrow> while_too_large n i = Some (i mod n)"
proof (induction "nat i" arbitrary: i rule: less_induct)
  case less
  show ?case
  proof (cases "n \<le> i")
    case False
    with less.prems show ?thesis by (subst while_too_large.simps) simp
  next
    case True
    have "while_too_large n (i - n) = Some ((i - n) mod n)"
      using less.prems True by (intro less.hyps) auto
    with True show ?thesis by (subst while_too_large.simps) simp
  qed
qed

lemma while_negative_diverges: "n \<le> 0 \<Longrightarrow> i < 0 \<Longrightarrow> while_negative n i = None"
proof -
  have "while_negative n i = Some y \<Longrightarrow> n \<le> 0 \<longrightarrow> 0 \<le> i" for y
    by (rule while_negative.raw_induct [where P = "\<lambda>n i y. n \<le> 0 \<longrightarrow> 0 \<le> i"])
       (fastforce split: if_splits)
  then show "n \<le> 0 \<Longrightarrow> i < 0 \<Longrightarrow> while_negative n i = None"
    by (cases "while_negative n i") fastforce+
qed

lemma while_too_large_diverges: "n \<le> 0 \<Longrightarrow> 0 \<le> i \<Longrightarrow> while_too_large n i = None"
proof -
  have "while_too_large n i = Some y \<Longrightarrow> n \<le> 0 \<longrightarrow> i < 0" for y
    by (rule while_too_large.raw_induct [where P = "\<lambda>n i y. n \<le> 0 \<longrightarrow> i < 0"])
       (fastforce split: if_splits)
  then show "n \<le> 0 \<Longrightarrow> 0 \<le> i \<Longrightarrow> while_too_large n i = None"
    by (cases "while_too_large n i") fastforce+
qed

lemma normalize_index_terminates: "0 < n \<Longrightarrow> normalize_index n key = Some (key mod n)"
  by (simp add: normalize_index_def while_negative_terminates while_too_large_terminates)

lemma normalize_index_diverges: "n \<le> 0 \<Longrightarrow> normalize_index n key = None"
proof (cases "key < 0")
  case True
  assume "n \<le> 0"
  with True show ?thesis by (simp add: normalize_index_def while_negative_diverges)
next
  case False
  assume n: "n \<le> 0"
  from False have "while_negative n key = Some key" by (subst while_negative.simps) simp
  with n False show ?thesis by (simp add: normalize_index_def while_too_large_diverges)
qed

lemma normalize_index_None: "normalize_index n key = None \<longleftrightarrow> n \<le> 0"
  using normalize_index_terminates [of n key] normalize_index_diverges [of n key]
  by (cases "0 < n") auto

lemma getitem_None: "getitem key s = None \<longleftrightarrow> num_items s \<le> 0"
proof -
  have "getitem key s = None \<longleftrightarrow> normalize_index (num_items s) key = None"
    by (simp add: getitem_def split: option.splits)
  then show ?thesis by (simp add: normalize_index_None)
qed

lemma py_index_in_range: "0 \<le> i \<Longrightarrow> i < int n \<Longrightarrow> py_index n i = Some (nat i)"
  by (simp add: py_index_def)

lemma get_slot_hit_count [simp]: "get_slot i (s\<lparr>hit_count := h\<rparr>) = get_slot i s"
  by (simp add: get_slot_def)

lemma read_item_well_formed:
  assumes "well_formed s" and "0 \<le> i"
  shows "read_item i s =
     (get_slot ((oldest_item_idx s + i) mod capacity_items s) s,
      s\<lparr>hit_count := (hit_count s)
          [nat ((oldest_item_idx s + i) mod capacity_items s) :=
             hit_count s ! nat ((oldest_item_idx s + i) mod capacity_items s) + 1]\<rparr>)"
proof -
  from assms have c: "0 < capacity_items s" "length (hit_count s) = nat (capacity_items s)"
    by (simp_all add: well_formed_def)
  let ?idx = "(oldest_item_idx s + i) mod capacity_items s"
  have "0 \<le> ?idx" "?idx < capacity_items s" using c by simp_all
  then have "py_index (length (hit_count s)) ?idx = Some (nat ?idx)"
    using c by (intro py_index_in_range) auto
  moreover have "max 1 (capacity_items s) = capacity_items s" using c by simp
  ultimately show ?thesis using assms(2)
    by (simp add: read_item_def get_internal_index_def Let_def)
qed

lemma three_batches_facts:
  "num_items three_batches = 3" "capacity_items three_batches = 3"
  "oldest_item_idx three_batches = 0" "hit_count three_batches = [0, 0, 0]"
  "samples three_batches = InMemory [Some (batch 1 1 8), Some (batch 2 1 8), Some (batch 3 1 8)]"
  by (simp_all add: three_batches_def run_defs)

text \<open>
  Claim C3, as the code has it. On a storage that holds at least one item, \<^verbatim>\<open>get(i)\<close>
  never fails for being out of range: the two loops reduce any integer \<open>i\<close> modulo
  \<open>num_items\<close> (an \<open>i\<close> already in \<open>[0, num_items)\<close> stays), the result is translated to
  the physical slot, that slot's hit count grows by one and the content of the slot is
  returned; nothing but the hit count changes, so the item stays stored.
\<close>

theorem getitem_wraps_around:
  assumes "0 < num_items s" and "well_formed s"
  shows "getitem key s =
      Some (get_slot ((oldest_item_idx s + key mod num_items s) mod capacity_items s) s,
            s\<lparr>hit_count := (hit_count s)
              [nat ((oldest_item_idx s + key mod num_items s) mod capacity_items s) :=
                 hit_count s ! nat ((oldest_item_idx s + key mod num_items s)
                                      mod capacity_items s) + 1]\<rparr>)
    \<and> (0 \<le> key \<and> key < num_items s \<longrightarrow> key mod num_items s = key)
    \<and> (\<forall>xs. samples s = InMemory xs \<longrightarrow>
          get_slot ((oldest_item_idx s + key mod num_items s) mod capacity_items s) s =
            Return (xs ! nat ((oldest_item_idx s + key mod num_items s) mod capacity_items s)))"
proof -
  have n: "normalize_index (num_items s) key = Some (key mod num_items s)"
    using assms(1) by (rule normalize_index_terminates)
  have "0 \<le> key mod num_items s" using assms(1) by simp
  from read_item_well_formed [OF assms(2) this] n
  have g: "getitem key s =
      Some (get_slot ((oldest_item_idx s + key mod num_items s) mod capacity_items s) s,
            s\<lparr>hit_count := (hit_count s)
              [nat ((oldest_item_idx s + key mod num_items s) mod capacity_items s) :=
                 hit_count s ! nat ((oldest_item_idx s + key mod num_items s)
                                      mod capacity_items s) + 1]\<rparr>)"
    by (simp add: getitem_def)
  have m: "0 \<le> key \<and> key < num_items s \<longrightarrow> key mod num_items s = key" by simp
  have r: "get_slot ((oldest_item_idx s + key mod num_items s) mod capacity_items s) s =
            Return (xs ! nat ((oldest_item_idx s + key mod num_items s) mod capacity_items s))"
    if "samples s = InMemory xs" for xs
  proof -
    let ?idx = "(oldest_item_idx s + key mod num_items s) mod capacity_items s"
    from assms(2) that have c: "0 < capacity_items s" "length xs = nat (capacity_items s)"
      by (simp_all add: well_formed_def)
    then have "0 \<le> ?idx" "?idx < int (length xs)" by simp_all
    then have "py_index (length xs) ?idx = Some (nat ?idx)" by (rule py_index_in_range)
    with that show ?thesis by (simp add: get_slot_def)
  qed
  from g m r show ?thesis by blast
qed

theorem getitem_wraps_around_witness:
  "0 < num_items three_batches \<and> well_formed three_batches
   \<and> getitem 4 three_batches =
      Some (Return (Some (batch 2 1 8)), three_batches\<lparr>hit_count := [0, 1, 0]\<rparr>)"
proof -
  have h1: "0 < num_items three_batches" by (simp add: three_batches_facts)
  have h2: "well_formed three_batches" by (simp add: well_formed_def three_batches_facts)
  from getitem_wraps_around [OF h1 h2, of 4]
  have "getitem 4 three_batches =
      Some (Return (Some (batch 2 1 8)), three_batches\<lparr>hit_count := [0, 1, 0]\<rparr>)"
    by (simp add: three_batches_facts)
  with h1 h2 show ?thesis by blast
qed

text \<open>
  Claim C3 as stated fails: with three items stored, \<^verbatim>\<open>get(3)\<close> and \<^verbatim>\<open>get(-1)\<close> return the
  oldest and the newest item instead of raising.
\<close>

theorem getitem_out_of_range_returns:
  "num_items three_batches = 3
   \<and> map_option fst (getitem 3 three_batches) = Some (Return (Some (batch 1 1 8)))
   \<and> map_option fst (getitem (- 1) three_batches) = Some (Return (Some (batch 3 1 8)))"
proof -
  have a: "normalize_index 3 3 = Some 0" "normalize_index 3 (- 1) = Some 2"
    by (simp_all add: normalize_index_terminates)
  show ?thesis
    unfolding getitem_def three_batches_facts a
    by (simp add: read_item_def get_slot_def get_internal_index_def py_index_def
        three_batches_facts)
qed

subsection \<open>Termination of a read\<close>

lemma store_getitem_view_None:
  "store_getitem key (StorageView p sl m) = None \<longleftrightarrow>
     m = [] \<or> store_getitem (m ! nat (key mod int (length m))) p = None"
proof (cases "m = []")
  case True
  then show ?thesis by (simp add: normalize_index_diverges)
next
  case False
  then have l: "0 < int (length m)" by simp
  have n: "normalize_index (int (length m)) key = Some (key mod int (length m))"
    using l by (rule normalize_index_terminates)
  have "0 \<le> key mod int (length m)" "key mod int (length m) < int (length m)"
    using l by simp_all
  then have "py_index (length m) (key mod int (length m)) = Some (nat (key mod int (length m)))"
    by (rule py_index_in_range)
  with n False show ?thesis by (simp split: option.splits)
qed

text \<open>
  Claim C10, as the code has it. A read of a storage with an integer key returns or
  raises exactly when the storage holds an item; on an empty storage it runs forever.
  A read of a view runs forever exactly when the view is empty or the read it passes to
  its parent, at the index the key maps to, runs forever.
\<close>

theorem getitem_terminates_iff:
  "(getitem key s = None \<longleftrightarrow> num_items s \<le> 0)
   \<and> (store_getitem key (Local s) = None \<longleftrightarrow> store_len (Local s) \<le> 0)
   \<and> (store_getitem key (StorageView p sl m) = None \<longleftrightarrow>
        m = [] \<or> store_getitem (m ! nat (key mod int (length m))) p = None)"
proof -
  have "store_getitem key (Local s) = None \<longleftrightarrow> getitem key s = None"
    by (simp split: option.splits)
  then show ?thesis
    using getitem_None [of key s] store_getitem_view_None [of key p sl m] by simp
qed

text \<open>
  Claim C10 as stated fails for views: the view \<^verbatim>\<open>storage[0:1]\<close> of an empty storage has
  length 1, and reading its index 0 runs forever in the parent.
\<close>

theorem view_getitem_diverges_on_empty_parent:
  "store_len (StorageView_init (Local (projr (InMemoryStorage_init 3 None None)))
           \<lparr>start = Some 0, stop = Some 1, step = None\<rparr>) = 1
   \<and> store_getitem 0 (StorageView_init (Local (projr (InMemoryStorage_init 3 None None)))
           \<lparr>start = Some 0, stop = Some 1, step = None\<rparr>) = None"
proof -
  have v: "StorageView_init (Local (projr (InMemoryStorage_init 3 None None)))
           \<lparr>start = Some 0, stop = Some 1, step = None\<rparr> =
        StorageView (Local (projr (InMemoryStorage_init 3 None None))) (0, 1, 1) [0]"
    by (simp add: StorageView_init_def view_slice_def view_idx_map_def or_default_def
        py_range_def range_len_def InMemoryStorage_init_def LocalStorage_init_def
        capacity_positive_def)
  have g: "getitem 0 (projr (InMemoryStorage_init 3 None None)) = None"
    by (simp add: getitem_None InMemoryStorage_init_def LocalStorage_init_def
        capacity_positive_def)
  have "store_getitem 0
          (StorageView (Local (projr (InMemoryStorage_init 3 None None))) (0, 1, 1) [0]) = None"
    by (subst store_getitem_view_None) (simp add: g)
  then show ?thesis unfolding v by simp
qed

subsection \<open>The index list of a view\<close>

lemma view_idx_map_conventional:
  "step sl \<noteq> Some 0 \<Longrightarrow> slice_within n sl \<Longrightarrow> view_idx_map n sl = conventional_slice n sl"
  by (auto simp: view_idx_map_def view_slice_def conventional_slice_def slice_within_def
      inside_def or_default_def clamp_bound_def Let_def
      split: option.splits if_splits)

lemma view_idx_map_defaults:
  "view_idx_map n \<lparr>start = None, stop = None, step = None\<rparr> = map int [0..<nat n]"
  "view_idx_map n \<lparr>start = None, stop = None, step = Some (- 1)\<rparr> =
     map (\<lambda>k. n - 1 - int k) [0..<nat n]"
  by (auto simp: view_idx_map_def view_slice_def or_default_def py_range_def range_len_def
      Let_def)

lemma view_idx_map_examples:
  "view_idx_map 10 \<lparr>start = Some 2, stop = Some 8, step = Some 2\<rparr> = [2, 4, 6]"
  "view_idx_map 10 \<lparr>start = None, stop = None, step = Some (- 1)\<rparr> =
     [9, 8, 7, 6, 5, 4, 3, 2, 1, 0]"
  by code_simp+

text \<open>
  Claim C5, as the code has it. For a parent of length \<open>n\<close> and a slice whose step is not
  zero and whose explicit bounds lie inside the parent (\<open>slice_within\<close>), the index list of
  the view is the conventional slice of \<^verbatim>\<open>range(n)\<close>. With both bounds omitted the list is
  \<open>0, \<dots>, n - 1\<close> for the default step and \<open>n - 1, \<dots>, 0\<close> for step \<open>-1\<close>, ending at index 0
  exactly. For length 10, \<^verbatim>\<open>slice(2, 8, 2)\<close> gives \<open>[2, 4, 6]\<close> and \<^verbatim>\<open>slice(None, None, -1)\<close>
  gives \<open>[9, \<dots>, 0]\<close>.
\<close>

theorem view_idx_map_is_slice:
  "step sl \<noteq> Some 0 \<Longrightarrow> slice_within n sl \<Longrightarrow>
     view_idx_map n sl = conventional_slice n sl
     \<and> view_idx_map n \<lparr>start = None, stop = None, step = None\<rparr> = map int [0..<nat n]
     \<and> view_idx_map n \<lparr>start = None, stop = None, step = Some (- 1)\<rparr> =
         map (\<lambda>k. n - 1 - int k) [0..<nat n]
     \<and> view_idx_map 10 \<lparr>start = Some 2, stop = Some 8, step = Some 2\<rparr> = [2, 4, 6]
     \<and> view_idx_map 10 \<lparr>start = None, stop = None, step = Some (- 1)\<rparr> =
         [9, 8, 7, 6, 5, 4, 3, 2, 1, 0]"
  using view_idx_map_conventional [of sl n] view_idx_map_defaults [of n] view_idx_map_examples
  by blast

theorem view_idx_map_is_slice_witness:
  "step \<lparr>start = Some 2, stop = Some 8, step = Some 2\<rparr> \<noteq> Some 0
   \<and> slice_within 10 \<lparr>start = Some 2, stop = Some 8, step = Some 2\<rparr>
   \<and> view_idx_map 10 \<lparr>start = Some 2, stop = Some 8, step = Some 2\<rparr> =
       conventional_slice 10 \<lparr>start = Some 2, stop = Some 8, step = Some 2\<rparr>
   \<and> conventional_slice 10 \<lparr>start = Some 2, stop = Some 8, step = Some 2\<rparr> = [2, 4, 6]"
proof -
  have h1: "step \<lparr>start = Some 2, stop = Some 8, step = Some 2\<rparr> \<noteq> Some 0" by simp
  have h2: "slice_within 10 \<lparr>start = Some 2, stop = Some 8, step = Some 2\<rparr>"
    by (simp add: slice_within_def inside_def)
  have c: "conventional_slice 10 \<lparr>start = Some 2, stop = Some 8, step = Some 2\<rparr> = [2, 4, 6]"
    by code_simp
  from view_idx_map_is_slice [OF h1 h2] h1 h2 c show ?thesis by blast
qed

text \<open>
  Claim C5 as stated fails: bounds are neither clamped to the parent nor counted from its
  end. For length 10, \<^verbatim>\<open>slice(-3, None, 1)\<close> gives the thirteen indices \<open>-3, \<dots>, 9\<close>, where
  conventional slicing gives \<open>[7, 8, 9]\<close>.
\<close>

theorem view_idx_map_negative_start:
  "view_idx_map 10 \<lparr>start = Some (- 3), stop = None, step = Some 1\<rparr> =
     [- 3, - 2, - 1, 0, 1, 2, 3, 4, 5, 6, 7, 8, 9]
   \<and> conventional_slice 10 \<lparr>start = Some (- 3), stop = None, step = Some 1\<rparr> = [7, 8, 9]"
  by code_simp

subsection \<open>A write rejected by the capacity forecast\<close>

lemma evict_oldest_not_ValueError: "evict_oldest s = (Raise e, s') \<Longrightarrow> e \<noteq> ValueError"
  by (auto simp: evict_oldest_def delitem_def push_def get_internal_index_def Let_def
      split: if_splits option.splits samples.splits prod.splits outcome.splits sum.splits)

lemma drop_old_items_not_ValueError:
  "drop_old_items s = (Raise e, s') \<Longrightarrow> e \<noteq> ValueError"
proof (induction s arbitrary: s' rule: drop_old_items.induct)
  case (1 s)
  show ?case
  proof (cases "needs_eviction s")
    case False
    with "1.prems" show ?thesis by (simp add: drop_old_items.simps)
  next
    case True
    obtain q t where ev: "evict_oldest s = (q, t)" by (cases "evict_oldest s")
    show ?thesis
    proof (cases q)
      case (Raise e')
      with True ev "1.prems" have "e = e'" by (simp add: drop_old_items.simps)
      with ev Raise evict_oldest_not_ValueError show ?thesis by blast
    next
      case (Return u)
      with True ev "1.prems" have d: "drop_old_items (snd (evict_oldest s)) = (Raise e, s')"
        by (simp add: drop_old_items.simps)
      have "fst (evict_oldest s) = Return u" using ev Return by simp
      from "1.IH" [OF True refl this d] show ?thesis .
    qed
  qed
qed

lemma set_slot_ValueError:
  "set_slot free idx it s = (Raise ValueError, s') \<Longrightarrow> s' = s\<lparr>est_final_size := est_final_size s'\<rparr>"
  by (auto simp: set_slot_def warn_replay_capacity_def log_once_def Let_def
      split: if_splits prod.splits outcome.splits samples.splits option.splits)

lemma one_batch_facts:
  "num_items one_batch = 1" "oldest_item_idx one_batch = 0" "\<not> eviction_started one_batch"
  "num_timesteps_added one_batch = 1" "num_timesteps one_batch = 1" "size_bytes one_batch = 8"
  "samples one_batch = InMemory [Some (batch 1 1 8), None]"
  by (simp_all add: one_batch_def run_defs)

text \<open>
  How \<^verbatim>\<open>add\<close> leaves the storage when the capacity forecast raises: the counters have
  been updated and the eviction loop has run to its end before \<^verbatim>\<open>_set\<close> is reached, and
  nothing undoes either.
\<close>

lemma add_rejected_keeps_evictions:
  assumes "add free it s = (Raise ValueError, s')"
  shows "\<exists>s4. drop_old_items
            (s\<lparr>num_timesteps_added := num_timesteps_added s + count it,
               num_timesteps := num_timesteps s + count it,
               size_bytes := size_bytes s + item_size_bytes it\<rparr>) = (Return (), s4)
          \<and> s' = s4\<lparr>est_final_size := est_final_size s'\<rparr>
          \<and> num_timesteps_added s' = num_timesteps_added s + count it"
proof -
  let ?s3 = "s\<lparr>num_timesteps_added := num_timesteps_added s + count it,
               num_timesteps := num_timesteps s + count it,
               size_bytes := size_bytes s + item_size_bytes it\<rparr>"
  obtain q s4 where d: "drop_old_items ?s3 = (q, s4)" by (cases "drop_old_items ?s3")
  from assms have small: "\<not> count it > capacity_items s"
    by (auto simp: add_def split: if_splits)
  have q: "q = Return ()"
  proof (cases q)
    case (Raise e)
    with assms small d have "e = ValueError" by (simp add: add_def Let_def)
    with d Raise drop_old_items_not_ValueError show ?thesis by blast
  qed simp
  obtain new_idx where g: "get_internal_index (num_items s4) s4 = Inr new_idx"
    using assms small d q
    by (cases "get_internal_index (num_items s4) s4")
       (auto simp: add_def Let_def get_internal_index_def split: if_splits)
  obtain r5 s5 where w: "set_slot free new_idx it s4 = (r5, s5)"
    by (cases "set_slot free new_idx it s4")
  from assms small d q g w have "r5 = Raise ValueError \<and> s5 = s'"
    by (cases r5) (auto simp: add_def Let_def split: if_splits)
  with w have "s' = s4\<lparr>est_final_size := est_final_size s'\<rparr>"
    using set_slot_ValueError by blast
  moreover from this have "num_timesteps_added s' = num_timesteps_added s4"
    by (metis storage.select_convs storage.surjective storage.update_convs(13))
  moreover have "num_timesteps_added s4 = num_timesteps_added ?s3"
    using drop_old_items_fields [OF d] by simp
  ultimately show ?thesis using d q by auto
qed

text \<open>
  Claim C2 at a concrete input. The storage has two slots, holds at most one timestep
  and stores one batch. Adding a batch of four gigabytes with one gigabyte free raises the
  capacity-exhaustion error, and the claim says that the storage is then as it was
  before the call. The code has evicted the stored batch by then: the storage is left
  without items, with the oldest slot advanced and the eviction flag set, while
  \<open>num_timesteps\<close> and \<open>size_bytes\<close> count the rejected batch, which is not stored. The next
  \<^verbatim>\<open>add\<close>, of a one-step batch with plenty of memory, finds the timestep capacity exceeded
  and nothing left to evict, and fails its assertion.
\<close>

theorem add_rejected_changes_state:
  "fst (add 1000000000 huge one_batch) = Raise ValueError
   \<and> num_items one_batch = 1 \<and> num_items (snd (add 1000000000 huge one_batch)) = 0
   \<and> oldest_item_idx one_batch = 0
   \<and> oldest_item_idx (snd (add 1000000000 huge one_batch)) = 1
   \<and> \<not> eviction_started one_batch
   \<and> eviction_started (snd (add 1000000000 huge one_batch))
   \<and> num_timesteps_added one_batch = 1
   \<and> num_timesteps_added (snd (add 1000000000 huge one_batch)) = 2
   \<and> size_bytes one_batch = 8
   \<and> size_bytes (snd (add 1000000000 huge one_batch)) = 4000000000
   \<and> samples one_batch = InMemory [Some (batch 1 1 8), None]
   \<and> samples (snd (add 1000000000 huge one_batch)) = InMemory [None, None]
   \<and> num_timesteps one_batch = 1
   \<and> num_timesteps (snd (add 1000000000 huge one_batch)) = 1
   \<and> fst (add plenty (batch 3 1 8) (snd (add 1000000000 huge one_batch))) =
       Raise AssertionError
   \<and> num_items (snd (add plenty (batch 3 1 8) (snd (add 1000000000 huge one_batch)))) = 0"
proof -
  have "fst (add 1000000000 huge one_batch) = Raise ValueError"
    "num_items (snd (add 1000000000 huge one_batch)) = 0"
    "oldest_item_idx (snd (add 1000000000 huge one_batch)) = 1"
    "eviction_started (snd (add 1000000000 huge one_batch))"
    "num_timesteps_added (snd (add 1000000000 huge one_batch)) = 2"
    "size_bytes (snd (add 1000000000 huge one_batch)) = 4000000000"
    "samples (snd (add 1000000000 huge one_batch)) = InMemory [None, None]"
    "num_timesteps (snd (add 1000000000 huge one_batch)) = 1"
    by (simp_all add: one_batch_def huge_def run_defs)
  moreover have "fst (add plenty (batch 3 1 8) (snd (add 1000000000 huge one_batch))) =
       Raise AssertionError"
    "num_items (snd (add plenty (batch 3 1 8) (snd (add 1000000000 huge one_batch)))) = 0"
    by (simp_all add: one_batch_def huge_def run_defs)
  ultimately show ?thesis using one_batch_facts by simp
qed

subsection \<open>Replacing an item\<close>

lemma delitem_occupied:
  assumes "well_formed s" and "0 \<le> idx" and "idx < capacity_items s"
    and "get_slot idx s = Return (Some d)"
  shows "delitem idx s =
     (Return (Some d),
      s\<lparr>samples := (case samples s of
                       InMemory xs \<Rightarrow> InMemory (xs[nat idx := None])
                     | OnDisk m \<Rightarrow> OnDisk m),
        evicted_hit_stats := evicted_hit_stats s @ [hit_count s ! nat idx],
        hit_count := (hit_count s)[nat idx := 0]\<rparr>)"
proof -
  from assms have h: "py_index (length (hit_count s)) idx = Some (nat idx)"
    by (intro py_index_in_range) (auto simp: well_formed_def)
  show ?thesis
  proof (cases "samples s")
    case (InMemory xs)
    with assms have "py_index (length xs) idx = Some (nat idx)"
      by (intro py_index_in_range) (auto simp: well_formed_def)
    with InMemory h assms(4) show ?thesis
      by (simp add: delitem_def get_slot_def push_def Let_def)
  next
    case (OnDisk m)
    with h assms(4) show ?thesis
      by (auto simp: delitem_def get_slot_def push_def Let_def split: option.splits)
  qed
qed

lemma set_slot_writes:
  assumes "set_slot free idx it s = (r, s')" and "0 \<le> idx" and "idx < capacity_items s"
    and "case samples s of InMemory xs \<Rightarrow> length xs = nat (capacity_items s) | OnDisk m \<Rightarrow> True"
  shows "(r = Return () \<or> r = Raise ValueError \<or> r = Raise ZeroDivisionError)
     \<and> (r = Return () \<longrightarrow> get_slot idx s' = Return (Some it))
     \<and> (\<exists>ms. logged s' = logged s @ ms \<and> Warning_more_timesteps \<notin> set ms)"
proof -
  obtain q t where w: "warn_replay_capacity free it s = (q, t)"
    by (cases "warn_replay_capacity free it s")
  then have l: "\<exists>ms. logged t = logged s @ ms \<and> Warning_more_timesteps \<notin> set ms"
    by (auto simp: warn_replay_capacity_def log_once_def Let_def split: if_splits)
  from w have e: "q = Return () \<or> q = Raise ValueError \<or> q = Raise ZeroDivisionError"
    by (auto simp: warn_replay_capacity_def log_once_def Let_def split: if_splits)
  from w have f: "samples t = samples s" "capacity_items t = capacity_items s"
    by (auto simp: warn_replay_capacity_def log_once_def Let_def split: if_splits)
  show ?thesis
  proof (cases q)
    case (Raise x)
    with assms(1) w have "r = q" "s' = t" by (simp_all add: set_slot_def)
    with l e Raise show ?thesis by auto
  next
    case (Return u)
    show ?thesis
    proof (cases "samples t")
      case (InMemory xs)
      with f have "samples s = InMemory xs" by simp
      with assms(4) have len: "length xs = nat (capacity_items s)" by simp
      with assms have p: "py_index (length xs) idx = Some (nat idx)" "idx \<noteq> int (length xs)"
        by (auto intro!: py_index_in_range)
      with assms(1) w Return InMemory
      have r: "r = Return ()" "s' = t\<lparr>samples := InMemory (xs[nat idx := Some it])\<rparr>"
        by (simp_all add: set_slot_def)
      have "nat idx < length xs" using len assms by simp
      with r p l show ?thesis by (simp add: get_slot_def)
    next
      case (OnDisk m)
      with assms(1) w Return
      have r: "r = Return ()" "s' = t\<lparr>samples := OnDisk (m(idx := Some it))\<rparr>"
        by (simp_all add: set_slot_def)
      with l show ?thesis by (simp add: get_slot_def)
    qed
  qed
qed

lemma evicting_facts:
  "num_items evicting = 2" "capacity_items evicting = 2" "oldest_item_idx evicting = 1"
  "eviction_started evicting" "hit_count evicting = [0, 0]"
  "num_timesteps evicting = 4"
  "samples evicting = InMemory [Some (batch 3 2 16), Some (batch 2 2 16)]"
  by (simp_all add: evicting_def run_defs)

text \<open>
  Claim C8, as the code has it. For \<^verbatim>\<open>set(i, item)\<close> with \<open>0 \<le> i < num_items\<close> on a
  storage whose eviction has started and whose slot \<open>i\<close> holds the item \<open>d\<close>, the warning is
  logged exactly when the replacement has more timesteps than the evicted item
  (\<open>count d < count it\<close>). With or without the warning the call goes on: the counters lose
  the evicted item's contribution and gain the new item's, and the new item is written
  unless the capacity forecast raises (the only errors left).
\<close>

theorem setitem_warns_on_more_timesteps:
  assumes "0 \<le> i" and "i < num_items s" and "eviction_started s" and "well_formed s"
    and "get_slot ((oldest_item_idx s + i) mod capacity_items s) s = Return (Some d)"
    and "setitem free i it s = (r, s')"
  shows "(\<exists>ms. logged s' =
            logged s @ (if count d < count it then [Warning_more_timesteps] else []) @ ms
          \<and> Warning_more_timesteps \<notin> set ms)
     \<and> (r = Return () \<or> r = Raise ValueError \<or> r = Raise ZeroDivisionError)
     \<and> (r = Return () \<longrightarrow>
          get_slot ((oldest_item_idx s + i) mod capacity_items s) s' = Return (Some it))
     \<and> num_timesteps s' = num_timesteps s - count d + count it
     \<and> size_bytes s' = size_bytes s - item_size_bytes d + item_size_bytes it
     \<and> num_timesteps_added s' = num_timesteps_added s + count it
     \<and> num_items s' = num_items s"
proof -
  let ?idx = "(oldest_item_idx s + i) mod capacity_items s"
  from assms(4) have c: "0 < capacity_items s" "length (hit_count s) = nat (capacity_items s)"
    by (simp_all add: well_formed_def)
  have idx: "0 \<le> ?idx" "?idx < capacity_items s" using c by simp_all
  have gi: "get_internal_index i s = Inr ?idx"
    using assms(1) c by (simp add: get_internal_index_def)
  note del = delitem_occupied [OF assms(4) idx assms(5)]
  let ?s1 = "s\<lparr>samples := (case samples s of
                       InMemory xs \<Rightarrow> InMemory (xs[nat ?idx := None])
                     | OnDisk m \<Rightarrow> OnDisk m),
        evicted_hit_stats := evicted_hit_stats s @ [hit_count s ! nat ?idx],
        hit_count := (hit_count s)[nat ?idx := 0]\<rparr>"
  let ?s2 = "if count d < count it
             then ?s1\<lparr>logged := logged ?s1 @ [Warning_more_timesteps]\<rparr> else ?s1"
  have h: "py_index (length (hit_count ?s2)) ?idx = Some (nat ?idx)"
    using idx c by (intro py_index_in_range) auto
  let ?s9 = "(push (hit_count ?s2 ! nat ?idx) ?s2)
      \<lparr>num_timesteps := num_timesteps ?s2 - count d,
        size_bytes := size_bytes ?s2 - item_size_bytes d,
        hit_count := (hit_count ?s2)[nat ?idx := 0],
        num_timesteps_added := num_timesteps_added ?s2 + count it,
        num_timesteps := num_timesteps ?s2 - count d + count it,
        size_bytes := size_bytes ?s2 - item_size_bytes d + item_size_bytes it\<rparr>"
  have st: "setitem free i it s = set_slot free ?idx it ?s9"
    using assms(1,2,3) gi del h
    by (simp add: setitem_def Let_def push_def)
  with assms(6) have ss: "set_slot free ?idx it ?s9 = (r, s')" by simp
  have wf9: "case samples ?s9 of InMemory xs \<Rightarrow> length xs = nat (capacity_items ?s9)
             | OnDisk m \<Rightarrow> True"
    using assms(4) by (auto simp: well_formed_def push_def split: samples.splits)
  have idx9: "?idx < capacity_items ?s9" using idx by (simp add: push_def)
  note w = set_slot_writes [OF ss idx(1) idx9 wf9]
  note f = set_slot_fields [OF ss]
  have l9: "logged ?s9 = logged s @ (if count d < count it then [Warning_more_timesteps] else [])"
    by (simp add: push_def)
  from w l9 have "\<exists>ms. logged s' =
            logged s @ (if count d < count it then [Warning_more_timesteps] else []) @ ms
          \<and> Warning_more_timesteps \<notin> set ms"
    by (metis append.assoc)
  moreover from f have "num_timesteps s' = num_timesteps s - count d + count it"
    "size_bytes s' = size_bytes s - item_size_bytes d + item_size_bytes it"
    "num_timesteps_added s' = num_timesteps_added s + count it"
    "num_items s' = num_items s"
    by (simp_all add: push_def)
  ultimately show ?thesis using w by blast
qed

theorem setitem_warns_on_more_timesteps_witness:
  "(0::int) \<le> 0 \<and> 0 < num_items evicting \<and> eviction_started evicting \<and> well_formed evicting
   \<and> get_slot ((oldest_item_idx evicting + 0) mod capacity_items evicting) evicting =
       Return (Some (batch 2 2 16))
   \<and> setitem plenty 0 (batch 5 3 24) evicting =
       (Return (), snd (setitem plenty 0 (batch 5 3 24) evicting))
   \<and> get_slot ((oldest_item_idx evicting + 0) mod capacity_items evicting)
        (snd (setitem plenty 0 (batch 5 3 24) evicting)) = Return (Some (batch 5 3 24))
   \<and> num_timesteps (snd (setitem plenty 0 (batch 5 3 24) evicting)) =
       num_timesteps evicting - count (batch 2 2 16) + count (batch 5 3 24)"
proof -
  have h1: "(0::int) \<le> 0" by simp
  have h2: "0 < num_items evicting" by (simp add: evicting_facts)
  have h3: "eviction_started evicting" by (simp add: evicting_facts)
  have h4: "well_formed evicting" by (simp add: well_formed_def evicting_facts)
  have h5: "get_slot ((oldest_item_idx evicting + 0) mod capacity_items evicting) evicting =
       Return (Some (batch 2 2 16))"
    by (simp add: get_slot_def py_index_def evicting_facts)
  have "fst (setitem plenty 0 (batch 5 3 24) evicting) = Return ()"
    by (simp add: setitem_def evicting_def run_defs)
  then have h6: "setitem plenty 0 (batch 5 3 24) evicting =
       (Return (), snd (setitem plenty 0 (batch 5 3 24) evicting))"
    by (metis prod.collapse)
  from setitem_warns_on_more_timesteps [OF h1 h2 h3 h4 h5 h6] h1 h2 h3 h4 h5 h6
  show ?thesis by blast
qed

text \<open>
  Claim C8 as stated fails: the test is the other way round. Replacing a two-step batch
  by a one-step batch logs nothing, and replacing it by a three-step batch logs the
  warning.
\<close>

theorem setitem_smaller_item_no_warning:
  "eviction_started evicting \<and> num_items evicting = 2
   \<and> get_slot 1 evicting = Return (Some (batch 2 2 16))
   \<and> fst (setitem plenty 0 (batch 4 1 8) evicting) = Return ()
   \<and> logged (snd (setitem plenty 0 (batch 4 1 8) evicting)) = logged evicting
   \<and> get_slot 1 (snd (setitem plenty 0 (batch 4 1 8) evicting)) = Return (Some (batch 4 1 8))
   \<and> logged (snd (setitem plenty 0 (batch 5 3 24) evicting)) =
       logged evicting @ [Warning_more_timesteps]"
proof -
  have "get_slot 1 evicting = Return (Some (batch 2 2 16))"
    by (simp add: get_slot_def py_index_def evicting_facts)
  moreover have "fst (setitem plenty 0 (batch 4 1 8) evicting) = Return ()"
    "logged (snd (setitem plenty 0 (batch 4 1 8) evicting)) = logged evicting"
    "get_slot 1 (snd (setitem plenty 0 (batch 4 1 8) evicting)) = Return (Some (batch 4 1 8))"
    "logged (snd (setitem plenty 0 (batch 5 3 24) evicting)) =
       logged evicting @ [Warning_more_timesteps]"
    by (simp_all add: setitem_def get_slot_def evicting_def run_defs)
  ultimately show ?thesis by (simp add: evicting_facts)
qed

subsection \<open>What an eviction records\<close>

text \<open>
  One pass of the eviction loop on an occupied oldest slot: the slot's hit count is
  pushed by \<^verbatim>\<open>add\<close> and reset, then \<^verbatim>\<open>__delitem__\<close> pushes the hit count again, which is
  now zero. The counters, the oldest slot and the number of items change as described.
\<close>

lemma evict_oldest_effect:
  assumes "evict_oldest s = (Return (), s')"
    and "py_index (length (hit_count s)) (oldest_item_idx s) = Some h"
    and "get_slot (oldest_item_idx s) s = Return (Some d)"
  shows "evicted_hit_stats s' = evicted_hit_stats s @ [hit_count s ! h, 0]
     \<and> hit_count s' = (hit_count s)[h := 0]
     \<and> num_timesteps s' = num_timesteps s - count d
     \<and> size_bytes s' = size_bytes s - item_size_bytes d
     \<and> oldest_item_idx s' = (oldest_item_idx s + 1) mod max 1 (capacity_items s)
     \<and> num_items s' = num_items s - 1
     \<and> eviction_started s'"
proof -
  from assms(2) have "h < length (hit_count s)"
    by (auto simp: py_index_def split: if_splits)
  then have z: "(hit_count s)[h := 0] ! h = 0" by simp
  from assms z show ?thesis
    by (auto simp: evict_oldest_def delitem_def get_slot_def push_def get_internal_index_def
        Let_def split: if_splits option.splits samples.splits)
qed

lemma one_slot_facts:
  "num_items one_slot = 1" "capacity_items one_slot = 1" "oldest_item_idx one_slot = 0"
  "hit_count one_slot = [0]" "evicted_hit_stats one_slot = []"
  "samples one_slot = InMemory [Some (batch 1 1 8)]"
  by (simp_all add: one_slot_def run_defs)

text \<open>
  Claim C9 at a concrete input. A storage of one slot holds a batch that has been read
  once, so its hit count is 1. Adding a second batch evicts the first, once, and the
  window statistic receives two values for that eviction, the hit count 1 and then 0.
\<close>

theorem eviction_records_two_values:
  "getitem 0 one_slot = Some (Return (Some (batch 1 1 8)), one_slot\<lparr>hit_count := [1]\<rparr>)
   \<and> evicted_hit_stats (one_slot\<lparr>hit_count := [1]\<rparr>) = []
   \<and> fst (add plenty (batch 2 1 8) (one_slot\<lparr>hit_count := [1]\<rparr>)) = Return ()
   \<and> samples (snd (add plenty (batch 2 1 8) (one_slot\<lparr>hit_count := [1]\<rparr>))) =
       InMemory [Some (batch 2 1 8)]
   \<and> evicted_hit_stats (snd (add plenty (batch 2 1 8) (one_slot\<lparr>hit_count := [1]\<rparr>))) =
       [1, 0]"
proof -
  have n: "normalize_index 1 0 = Some 0" by (simp add: normalize_index_terminates)
  have g: "getitem 0 one_slot =
      Some (Return (Some (batch 1 1 8)), one_slot\<lparr>hit_count := [1]\<rparr>)"
    unfolding getitem_def one_slot_facts n
    by (simp add: read_item_def get_slot_def get_internal_index_def py_index_def one_slot_facts)
  have "fst (add plenty (batch 2 1 8) (one_slot\<lparr>hit_count := [1]\<rparr>)) = Return ()"
    "samples (snd (add plenty (batch 2 1 8) (one_slot\<lparr>hit_count := [1]\<rparr>))) =
       InMemory [Some (batch 2 1 8)]"
    "evicted_hit_stats (snd (add plenty (batch 2 1 8) (one_slot\<lparr>hit_count := [1]\<rparr>))) =
       [1, 0]"
    by (simp_all add: one_slot_def run_defs)
  with g show ?thesis by (simp add: one_slot_facts)
qed

subsection \<open>The reservoir buffer\<close>

text \<open>
  The draw lies in the range asked for; before the storage evicts, the call to the
  parent class raises; after that, the item replaces the drawn slot or is discarded.
\<close>

lemma randint_range: "randint rnd a b = Return j \<Longrightarrow> a \<le> j \<and> j \<le> b"
proof -
  assume r: "randint rnd a b = Return j"
  then have ab: "a \<le> b" and j: "j = a + int rnd mod (b - a + 1)"
    by (auto simp: randint_def split: if_splits)
  from ab have "0 < b - a + 1" by simp
  then have "0 \<le> int rnd mod (b - a + 1)" "int rnd mod (b - a + 1) < b - a + 1"
    by (rule pos_mod_sign, rule pos_mod_bound)
  with j show ?thesis by simp
qed

lemma add_single_batch_before_eviction:
  "\<not> eviction_started (buffer_storage b) \<Longrightarrow>
     add_single_batch free rnd it b = (Raise TypeError, b\<lparr>num_add_calls := num_add_calls b + 1\<rparr>)"
  by (simp add: add_single_batch_def Let_def)

lemma add_single_batch_after_eviction:
  assumes "eviction_started (buffer_storage b)" and "0 \<le> num_add_calls b"
  shows "add_single_batch free rnd it b =
     (if int rnd mod (num_add_calls b + 1) < num_items (buffer_storage b)
      then (fst (setitem free (int rnd mod (num_add_calls b + 1)) it (buffer_storage b)),
            b\<lparr>num_add_calls := num_add_calls b + 1, num_evicted := num_evicted b + 1,
              buffer_storage :=
                snd (setitem free (int rnd mod (num_add_calls b + 1)) it (buffer_storage b))\<rparr>)
      else (Return (), b\<lparr>num_add_calls := num_add_calls b + 1\<rparr>))"
  using assms
  by (simp add: add_single_batch_def randint_def Let_def split: prod.splits)

text \<open>
  Claim C4 at a concrete input. On a new reservoir buffer, whose storage has not begun
  evicting, \<^verbatim>\<open>_add_single_batch\<close> counts the call and then raises \<^verbatim>\<open>TypeError\<close>; the item
  does not reach the storage.
\<close>

theorem add_single_batch_raises_before_eviction:
  "\<not> eviction_started (buffer_storage new_reservoir)
   \<and> add_single_batch plenty 0 (batch 1 1 8) new_reservoir =
       (Raise TypeError, new_reservoir\<lparr>num_add_calls := 1\<rparr>)
   \<and> num_items (buffer_storage (snd (add_single_batch plenty 0 (batch 1 1 8) new_reservoir))) = 0"
  by (simp add: add_single_batch_def new_reservoir_def InMemoryStorage_init_def
      LocalStorage_init_def capacity_positive_def Let_def)


end
